theory Spec2Isabelle
  imports Main
begin

section \<open>Strings\<close>

text \<open>
  A Python \<open>str\<close> is modelled as a \<open>string\<close> whose characters are the code points
  below 256. \<open>lower\<close> is \<open>str.lower()\<close> on that range: the ASCII capitals and the
  Latin-1 capitals (192..222 without the multiplication sign 215) move up by 32.
\<close>

definition lower_char :: "char \<Rightarrow> char" where
  "lower_char c =
     (let n = of_char c :: nat
      in if (65 \<le> n \<and> n \<le> 90) \<or> (192 \<le> n \<and> n \<le> 222 \<and> n \<noteq> 215)
         then char_of (n + 32) else c)"

definition lower :: "string \<Rightarrow> string" where
  "lower s = map lower_char s"

text \<open>\<open>s.lstrip(".")\<close> removes every leading dot, not only the first one.\<close>

definition lstrip_dot :: "string \<Rightarrow> string" where
  "lstrip_dot s = dropWhile (\<lambda>c. c = CHR ''.'') s"

text \<open>\<open>s.rfind(c)\<close>: the index of the last occurrence of \<open>c\<close>, or \<open>-1\<close>.\<close>

definition rfind :: "char \<Rightarrow> string \<Rightarrow> int" where
  "rfind c s =
     (if c \<in> set s
      then int (length s) - 1 - int (length (takeWhile (\<lambda>x. x \<noteq> c) (rev s)))
      else - 1)"

text \<open>The decimal digits of a natural number, as \<open>f"{k}"\<close> prints them.\<close>

definition digit :: "nat \<Rightarrow> char" where
  "digit d = char_of (48 + d)"

fun str_nat :: "nat \<Rightarrow> string" where
  "str_nat n = (if n < 10 then [digit n] else str_nat (n div 10) @ [digit (n mod 10)])"

declare str_nat.simps [simp del]

section \<open>Paths\<close>

text \<open>
  A \<open>Path\<close> is an absolute, normalised POSIX path, given by the list of its components
  (the root \<open>/\<close> is the empty list). Symbolic links are not modelled. A file name is one
  component, as \<open>Path.name\<close> returns it: it holds no \<open>/\<close>, and it is empty only for the
  root.
\<close>

type_synonym path = "string list"

definition pname :: "path \<Rightarrow> string" where
  "pname p = (if p = [] then [] else last p)"

definition parent :: "path \<Rightarrow> path" where
  "parent p = butlast p"

text \<open>\<open>folder / name\<close>; joining the empty string gives the folder itself.\<close>

definition join :: "path \<Rightarrow> string \<Rightarrow> path" where
  "join p n = (if n = [] then p else p @ [n])"

text \<open>
  \<open>Path(name).suffix\<close> and \<open>Path(name).stem\<close>: the name is cut at its last dot, unless
  that dot is the first or the last character of the name.
\<close>

definition suffix :: "string \<Rightarrow> string" where
  "suffix n =
     (let i = rfind CHR ''.'' n
      in if 0 < i \<and> i < int (length n) - 1 then drop (nat i) n else [])"

definition stem :: "string \<Rightarrow> string" where
  "stem n =
     (let i = rfind CHR ''.'' n
      in if 0 < i \<and> i < int (length n) - 1 then take (nat i) n else n)"

section \<open>The filesystem\<close>

text \<open>
  A filesystem is a finite table from paths to nodes. A file carries its text. The order
  of the table is the order in which the platform lists directory entries.
\<close>

datatype node = Dir | File string

type_synonym fs = "(path \<times> node) list"

definition exists :: "fs \<Rightarrow> path \<Rightarrow> bool" where
  "exists fs p = (map_of fs p \<noteq> None)"

definition is_dir :: "fs \<Rightarrow> path \<Rightarrow> bool" where
  "is_dir fs p = (map_of fs p = Some Dir)"

section \<open>Classifier\<close>

definition CATEGORIES :: "(string \<times> string list) list" where
  "CATEGORIES =
     [(''images'', [''jpg'', ''jpeg'', ''png'', ''gif'', ''webp'', ''bmp'', ''tiff'', ''heic'']),
      (''docs'', [''pdf'', ''doc'', ''docx'', ''txt'', ''md'', ''rtf'']),
      (''slides'', [''ppt'', ''pptx'', ''key'']),
      (''spreadsheets'', [''xls'', ''xlsx'', ''csv'', ''ods'']),
      (''archives'', [''zip'', ''rar'', ''7z'', ''tar'', ''gz'']),
      (''audio'', [''mp3'', ''wav'', ''aac'', ''flac'', ''m4a'', ''ogg'']),
      (''video'', [''mp4'', ''mov'', ''mkv'', ''avi'', ''wmv'', ''webm'']),
      (''code'', [''py'', ''ipynb'', ''js'', ''ts'', ''html'', ''css'', ''java'', ''c'', ''cpp'',
                 ''rs'', ''go'', ''sh'', ''ps1''])]"

definition OTHER_BUCKET :: string where
  "OTHER_BUCKET = ''other''"

definition NOEXT_BUCKET :: string where
  "NOEXT_BUCKET = ''no_extension''"

text \<open>The loop over the table: the first bucket whose set holds the extension.\<close>

fun find_bucket :: "(string \<times> string list) list \<Rightarrow> string \<Rightarrow> string option" where
  "find_bucket [] ext = None"
| "find_bucket ((bucket, exts) # rest) ext =
     (if ext \<in> set exts then Some bucket else find_bucket rest ext)"

definition pick_bucket :: "string \<Rightarrow> string" where
  "pick_bucket ext =
     (if ext = [] then NOEXT_BUCKET
      else (case find_bucket CATEGORIES (lstrip_dot (lower ext)) of
              Some bucket \<Rightarrow> bucket
            | None \<Rightarrow> OTHER_BUCKET))"

section \<open>Collision resolver\<close>

text \<open>The \<open>k\<close>-th renamed candidate, \<open>dst_folder / f"{base} ({k}){ext}"\<close>.\<close>

definition renamed :: "path \<Rightarrow> string \<Rightarrow> string \<Rightarrow> nat \<Rightarrow> path" where
  "renamed dst_folder base ext k = join dst_folder (base @ '' ('' @ str_nat k @ '')'' @ ext)"

text \<open>The \<open>while\<close> loop of \<open>safe_destination\<close>, on its two variables \<open>candidate\<close> and \<open>k\<close>.\<close>

function sd_while :: "fs \<Rightarrow> path \<Rightarrow> string \<Rightarrow> string \<Rightarrow> path \<Rightarrow> nat \<Rightarrow> path" where
  "sd_while fs dst_folder base ext cand k =
     (if exists fs cand
      then sd_while fs dst_folder base ext (renamed dst_folder base ext k) (k + 1)
      else cand)"
  by pat_completeness auto

text \<open>
  The loop ends because the renamed candidates are pairwise distinct and the table is
  finite: each round uses up one of the existing candidates from \<open>k\<close> on.
\<close>

lemma str_nat_nonempty: "str_nat n \<noteq> []"
  by (subst str_nat.simps) simp

lemma digit_inj: "a < 10 \<Longrightarrow> b < 10 \<Longrightarrow> digit a = digit b \<Longrightarrow> a = b"
proof -
  assume a: "a < 10" and b: "b < 10" and e: "digit a = digit b"
  have "(of_char (digit a) :: nat) = of_char (digit b)" using e by simp
  then have "(48 + a) mod 256 = (48 + b) mod 256" by (simp add: digit_def)
  then show ?thesis using a b by simp
qed

lemma str_nat_inj: "str_nat n = str_nat m \<Longrightarrow> n = m"
proof (induction n arbitrary: m rule: str_nat.induct)
  case (1 n)
  have en: "str_nat n = (if n < 10 then [digit n] else str_nat (n div 10) @ [digit (n mod 10)])"
    by (rule str_nat.simps)
  have em: "str_nat m = (if m < 10 then [digit m] else str_nat (m div 10) @ [digit (m mod 10)])"
    by (rule str_nat.simps)
  show ?case
  proof (cases "n < 10")
    case True
    note n = this
    show ?thesis
    proof (cases "m < 10")
      case True
      with n "1.prems" en em show ?thesis by (simp add: digit_inj)
    next
      case False
      with n "1.prems" en em str_nat_nonempty [of "m div 10"] show ?thesis by simp
    qed
  next
    case False
    note n = this
    show ?thesis
    proof (cases "m < 10")
      case True
      with n "1.prems" en em str_nat_nonempty [of "n div 10"] show ?thesis by simp
    next
      case False
      have e: "str_nat (n div 10) @ [digit (n mod 10)] = str_nat (m div 10) @ [digit (m mod 10)]"
        using n False "1.prems" en em by simp
      then have "n div 10 = m div 10" using "1.IH" [OF n] by simp
      moreover have "n mod 10 = m mod 10" using e by (simp add: digit_inj)
      ultimately have "n div 10 * 10 + n mod 10 = m div 10 * 10 + m mod 10" by simp
      then show ?thesis by (simp only: div_mult_mod_eq)
    qed
  qed
qed

lemma renamed_eq_iff: "renamed d b e j = renamed d b e k \<longleftrightarrow> j = k"
  by (auto simp: renamed_def join_def dest: str_nat_inj)

lemma renamed_inj: "inj (renamed d b e)"
  by (rule injI) (simp add: renamed_eq_iff)

lemma exists_iff: "exists fs p \<longleftrightarrow> p \<in> fst ` set fs"
  by (simp add: exists_def map_of_eq_None_iff)

definition taken :: "fs \<Rightarrow> path \<Rightarrow> string \<Rightarrow> string \<Rightarrow> nat \<Rightarrow> nat set" where
  "taken fs d b e k = {j. k \<le> j \<and> exists fs (renamed d b e j)}"

lemma finite_taken: "finite (taken fs d b e k)"
proof -
  have "taken fs d b e k \<subseteq> renamed d b e -` (fst ` set fs)"
    by (auto simp: taken_def exists_iff)
  moreover have "finite (renamed d b e -` (fst ` set fs))"
    by (rule finite_vimageI [OF _ renamed_inj]) simp
  ultimately show ?thesis by (rule finite_subset)
qed

lemma taken_step:
  "taken fs d b e k =
     (if exists fs (renamed d b e k) then insert k (taken fs d b e (Suc k))
      else taken fs d b e (Suc k))"
  by (auto simp: taken_def Suc_le_eq le_less)

termination sd_while
proof (relation "measure (\<lambda>(fs, d, b, e, cand, k).
          card (taken fs d b e k) + (if exists fs cand then 1 else 0))")
  show "wf (measure (\<lambda>(fs, d, b, e, cand, k).
          card (taken fs d b e k) + (if exists fs cand then 1 else 0)))"
    by simp
next
  fix fs :: fs and dst_folder base ext cand and k :: nat
  assume ex: "exists fs cand"
  have n: "k \<notin> taken fs dst_folder base ext (Suc k)" by (simp add: taken_def)
  have "card (taken fs dst_folder base ext (Suc k))
          + (if exists fs (renamed dst_folder base ext k) then 1 else 0)
        = card (taken fs dst_folder base ext k)"
    using n finite_taken [of fs dst_folder base ext "Suc k"]
    by (subst (2) taken_step) simp
  then show "((fs, dst_folder, base, ext, renamed dst_folder base ext k, k + 1),
              (fs, dst_folder, base, ext, cand, k))
             \<in> measure (\<lambda>(fs, d, b, e, cand, k).
                  card (taken fs d b e k) + (if exists fs cand then 1 else 0))"
    using ex by simp
qed

declare sd_while.simps [simp del]

definition safe_destination :: "fs \<Rightarrow> path \<Rightarrow> string \<Rightarrow> path" where
  "safe_destination fs dst_folder filename =
     (let base = stem filename;
          ext = suffix filename;
          candidate = join dst_folder filename
      in sd_while fs dst_folder base ext candidate 2)"

section \<open>Filesystem primitives\<close>

text \<open>What the platform raises; the path is the one the call was about.\<close>

datatype error =
    FileNotFoundError path
  | FileExistsError path
  | NotADirectoryError path
  | IsADirectoryError path
  | OSError path
  | ShutilError path
  | ValueError string

text \<open>Is \<open>p\<close> strictly below the directory \<open>d\<close>?\<close>

definition below :: "path \<Rightarrow> path \<Rightarrow> bool" where
  "below d p = (length d < length p \<and> take (length d) p = d)"

definition keys :: "fs \<Rightarrow> path list" where
  "keys fs = remdups (map fst fs)"

text \<open>
  \<open>folder.iterdir()\<close>: the direct children, listed once when the loop starts.
  \<open>folder.rglob("*")\<close>: every entry at any depth; the model lists them when the loop
  starts, which is what the lazy walk of the library yields as long as the loop body moves
  nothing.
\<close>

definition iterdir :: "fs \<Rightarrow> path \<Rightarrow> path list" where
  "iterdir fs folder = filter (\<lambda>p. p \<noteq> [] \<and> parent p = folder) (keys fs)"

definition rglob :: "fs \<Rightarrow> path \<Rightarrow> path list" where
  "rglob fs folder = filter (below folder) (keys fs)"

text \<open>\<open>os.mkdir(p)\<close>.\<close>

definition os_mkdir :: "fs \<Rightarrow> path \<Rightarrow> error + fs" where
  "os_mkdir fs p =
     (if exists fs p then Inl (FileExistsError p)
      else if p = [] \<or> \<not> exists fs (parent p) then Inl (FileNotFoundError p)
      else if \<not> is_dir fs (parent p) then Inl (NotADirectoryError p)
      else Inr (fs @ [(p, Dir)]))"

text \<open>
  \<open>Path.mkdir(parents=False, exist_ok=True)\<close>: a failure of \<open>os.mkdir\<close> is swallowed
  when the path is a directory already, except that a missing parent is always raised.
\<close>

definition mkdir_exist_ok :: "fs \<Rightarrow> path \<Rightarrow> error + fs" where
  "mkdir_exist_ok fs p =
     (case os_mkdir fs p of
        Inr fs' \<Rightarrow> Inr fs'
      | Inl (FileNotFoundError q) \<Rightarrow> Inl (FileNotFoundError q)
      | Inl e \<Rightarrow> if is_dir fs p then Inr fs else Inl e)"

text \<open>
  \<open>ensure_dir(path)\<close>, that is \<open>path.mkdir(parents=True, exist_ok=True)\<close>. The
  result is the exception raised, if any, and the filesystem reached.
\<close>

function ensure_dir :: "fs \<Rightarrow> path \<Rightarrow> error option \<times> fs" where
  "ensure_dir fs p =
     (case os_mkdir fs p of
        Inr fs' \<Rightarrow> (None, fs')
      | Inl (FileNotFoundError q) \<Rightarrow>
          (if parent p = p then (Some (FileNotFoundError q), fs)
           else (case ensure_dir fs (parent p) of
                   (Some e, fs1) \<Rightarrow> (Some e, fs1)
                 | (None, fs1) \<Rightarrow>
                     (case mkdir_exist_ok fs1 p of
                        Inl e \<Rightarrow> (Some e, fs1)
                      | Inr fs2 \<Rightarrow> (None, fs2))))
      | Inl e \<Rightarrow> if is_dir fs p then (None, fs) else (Some e, fs))"
  by pat_completeness auto
termination
proof (relation "measure (\<lambda>(fs, p). length p)")
  show "wf (measure (\<lambda>(fs :: fs, p :: path). length p))" by simp
next
  fix fs :: fs and p :: path
  assume "parent p \<noteq> p"
  then have "p \<noteq> []" by (auto simp: parent_def)
  then show "((fs, parent p), (fs, p)) \<in> measure (\<lambda>(fs, p). length p)"
    by (simp add: parent_def)
qed

declare ensure_dir.simps [simp del]

text \<open>
  \<open>os.rename(src, dst)\<close>. A file replaces an existing file; a directory moves with all
  that is below it, onto nothing or onto an empty directory.
\<close>

definition move_tree :: "path \<Rightarrow> path \<Rightarrow> fs \<Rightarrow> fs" where
  "move_tree src dst fs =
     map (\<lambda>(q, n). if q = src \<or> below src q then (dst @ drop (length src) q, n) else (q, n))
       (filter (\<lambda>(q, n). q \<noteq> dst) fs)"

definition os_rename :: "fs \<Rightarrow> path \<Rightarrow> path \<Rightarrow> error + fs" where
  "os_rename fs src dst =
     (case map_of fs src of
        None \<Rightarrow> Inl (FileNotFoundError src)
      | Some n \<Rightarrow>
          if dst = [] then Inl (OSError dst)
          else if \<not> exists fs (parent dst) then Inl (FileNotFoundError dst)
          else if \<not> is_dir fs (parent dst) then Inl (NotADirectoryError dst)
          else if src = dst then Inr fs
          else (case n of
                  File text \<Rightarrow>
                    if is_dir fs dst then Inl (IsADirectoryError dst)
                    else Inr (filter (\<lambda>(q, n). q \<noteq> src \<and> q \<noteq> dst) fs @ [(dst, File text)])
                | Dir \<Rightarrow>
                    if src = [] \<or> below src dst then Inl (OSError dst)
                    else if exists fs dst \<and> \<not> is_dir fs dst then Inl (NotADirectoryError dst)
                    else if \<exists>q \<in> set (keys fs). below dst q then Inl (OSError dst)
                    else Inr (move_tree src dst fs)))"

text \<open>
  \<open>shutil.move(src, dst)\<close> on one device: an existing directory \<open>dst\<close> receives \<open>src\<close>
  under its own name, unless that name is taken; otherwise \<open>src\<close> is renamed to \<open>dst\<close>.
  The callers have made the parent of \<open>dst\<close> a directory before, so that the copying
  fallback of the library is entered only after a failure that it repeats.
\<close>

definition shutil_move :: "fs \<Rightarrow> path \<Rightarrow> path \<Rightarrow> error + fs" where
  "shutil_move fs src dst =
     (if is_dir fs dst
      then (if src = dst then os_rename fs src dst
            else (let real_dst = join dst (pname src)
                  in if exists fs real_dst then Inl (ShutilError real_dst)
                     else os_rename fs src real_dst))
      else os_rename fs src dst)"

text \<open>Replace the text of the file at \<open>p\<close>, if there is one.\<close>

definition set_content :: "fs \<Rightarrow> path \<Rightarrow> string \<Rightarrow> fs" where
  "set_content fs p text =
     map (\<lambda>(q, n). (q, if q = p \<and> n \<noteq> Dir then File text else n)) fs"

text \<open>\<open>open(p, "w")\<close>: the file is created empty, or emptied.\<close>

definition open_w :: "fs \<Rightarrow> path \<Rightarrow> error + fs" where
  "open_w fs p =
     (if is_dir fs p then Inl (IsADirectoryError p)
      else if \<not> exists fs (parent p) then Inl (FileNotFoundError p)
      else if \<not> is_dir fs (parent p) then Inl (NotADirectoryError p)
      else if exists fs p then Inr (set_content fs p [])
      else Inr (fs @ [(p, File [])]))"

section \<open>Console output\<close>

datatype event =
    DryRunMove path path
  | Moved path path
  | LogSaved path
  | Processed nat
  | NotADirectory path
  | LogNotFound path
  | DryRunUndo path path
  | Undid path path
  | Missing path

text \<open>How a command ends: it returns, it calls \<open>sys.exit\<close>, or an exception escapes.\<close>

datatype outcome = Done | Exit nat | Raised error

text \<open>\<open>str(path)\<close>.\<close>

definition render :: "path \<Rightarrow> string" where
  "render p = (if p = [] then ''/'' else concat (map (\<lambda>c. CHR ''/'' # c) p))"

section \<open>Move executor\<close>

text \<open>
  \<open>log_f\<close> is \<open>None\<close> when no log is open, else the text written to the log so far.
  The result is the exception raised, if any, the filesystem and the log text reached, and
  what was printed.
\<close>

definition move_file ::
  "fs \<Rightarrow> path \<Rightarrow> path \<Rightarrow> bool \<Rightarrow> string option
     \<Rightarrow> error option \<times> fs \<times> string option \<times> event list"
where
  "move_file fs src dst dry_run log_f =
     (if dry_run then (None, fs, log_f, [DryRunMove src dst])
      else (case ensure_dir fs (parent dst) of
              (Some e, fs1) \<Rightarrow> (Some e, fs1, log_f, [])
            | (None, fs1) \<Rightarrow>
                (case shutil_move fs1 src dst of
                   Inl e \<Rightarrow> (Some e, fs1, log_f, [])
                 | Inr fs2 \<Rightarrow>
                     (None, fs2,
                      (case log_f of
                         None \<Rightarrow> None
                       | Some text \<Rightarrow> Some (text @ render src @ ''||'' @ render dst @ [CHR 0x0A])),
                      [Moved src dst]))))"

section \<open>Organize planner\<close>

definition LOG_PREFIX :: string where
  "LOG_PREFIX = ''_organize_log_''"

definition startswith :: "string \<Rightarrow> string \<Rightarrow> bool" where
  "startswith s pre = (take (length pre) s = pre)"

text \<open>
  The state of the loop: the filesystem, the log handle, the counter and the output.
  \<open>organize_step\<close> is the body of the loop for one entry \<open>p\<close> of the listing; the loop
  stops at the first exception, and returns it with the state reached.
\<close>

type_synonym run_state = "fs \<times> string option \<times> nat \<times> event list"

fun organize_step :: "path \<Rightarrow> bool \<Rightarrow> bool \<Rightarrow> path \<Rightarrow> run_state \<Rightarrow> error option \<times> run_state"
where
  "organize_step folder dry_run include_subdirs p (fs, log_f, processed, out) =
     (if is_dir fs p then (None, (fs, log_f, processed, out))
      else if startswith (pname p) LOG_PREFIX then (None, (fs, log_f, processed, out))
      else if \<not> include_subdirs \<and> parent p \<noteq> folder then (None, (fs, log_f, processed, out))
      else
        (let ext = suffix (pname p);
             bucket = pick_bucket ext;
             dst_folder = join folder bucket;
             dst = safe_destination fs dst_folder (pname p)
         in case move_file fs p dst dry_run log_f of
              (Some e, fs', log_f', msgs) \<Rightarrow> (Some e, (fs', log_f', processed, out @ msgs))
            | (None, fs', log_f', msgs) \<Rightarrow> (None, (fs', log_f', processed + 1, out @ msgs))))"

fun organize_loop ::
  "path \<Rightarrow> bool \<Rightarrow> bool \<Rightarrow> path list \<Rightarrow> run_state \<Rightarrow> error option \<times> run_state"
where
  "organize_loop folder dry_run include_subdirs [] st = (None, st)"
| "organize_loop folder dry_run include_subdirs (p # ps) st =
     (case organize_step folder dry_run include_subdirs p st of
        (Some e, st') \<Rightarrow> (Some e, st')
      | (None, st') \<Rightarrow> organize_loop folder dry_run include_subdirs ps st')"

text \<open>Closing the log, or the flush when the interpreter exits, puts the text into the file.\<close>

definition close_log :: "fs \<Rightarrow> path \<Rightarrow> string option \<Rightarrow> fs" where
  "close_log fs log_path log_f =
     (case log_f of None \<Rightarrow> fs | Some text \<Rightarrow> set_content fs log_path text)"

text \<open>
  \<open>organize(folder, dry_run, include_subdirs)\<close>. \<open>folder\<close> is the resolved path and
  \<open>ts\<close> the time stamp \<open>datetime.now().strftime("%Y%m%d_%H%M%S")\<close>. The result is the
  output, the way the command ends and the filesystem it leaves.
\<close>

definition log_name :: "string \<Rightarrow> string" where
  "log_name ts = LOG_PREFIX @ ts @ ''.txt''"

definition organize :: "fs \<Rightarrow> path \<Rightarrow> bool \<Rightarrow> bool \<Rightarrow> string \<Rightarrow> event list \<times> outcome \<times> fs" where
  "organize fs folder dry_run include_subdirs ts =
     (if \<not> is_dir fs folder then ([NotADirectory folder], Exit 1, fs)
      else
        (let log_path = join folder (log_name ts)
         in case (if dry_run then Inr (fs, None)
                  else (case open_w fs log_path of
                          Inl e \<Rightarrow> Inl e
                        | Inr fs' \<Rightarrow> Inr (fs', Some [])))
            of
              Inl e \<Rightarrow> ([], Raised e, fs)
            | Inr (fs0, log_f) \<Rightarrow>
                (let iterator = (if include_subdirs then rglob fs0 folder else iterdir fs0 folder)
                 in case organize_loop folder dry_run include_subdirs iterator (fs0, log_f, 0, [])
                    of
                      (Some e, (fs1, log_f1, processed, out)) \<Rightarrow>
                        (out, Raised e, close_log fs1 log_path log_f1)
                    | (None, (fs1, log_f1, processed, out)) \<Rightarrow>
                        (out @ (if log_f1 \<noteq> None then [LogSaved log_path] else [])
                             @ [Processed processed],
                         Done, close_log fs1 log_path log_f1))))"

section \<open>Undo engine\<close>

text \<open>
  Reading the log: the lines of the text (a line ends at \<open>\n\<close>, \<open>\r\<close> or \<open>\r\n\<close>, as
  text mode reads it), each stripped of white space at both ends and split at \<open>||\<close>.
  The line terminator is white space, so the lines are taken without it.
\<close>

fun universal_newlines :: "string \<Rightarrow> string" where
  "universal_newlines (c # d # cs) =
     (if c = CHR 0x0D
      then (if d = CHR 0x0A then CHR 0x0A # universal_newlines cs
            else CHR 0x0A # universal_newlines (d # cs))
      else c # universal_newlines (d # cs))"
| "universal_newlines [c] = (if c = CHR 0x0D then [CHR 0x0A] else [c])"
| "universal_newlines [] = []"

fun lines_of :: "string \<Rightarrow> string \<Rightarrow> string list" where
  "lines_of acc [] = (if acc = [] then [] else [rev acc])"
| "lines_of acc (c # cs) =
     (if c = CHR 0x0A then rev acc # lines_of [] cs else lines_of (c # acc) cs)"

definition isspace :: "char \<Rightarrow> bool" where
  "isspace c =
     (let n = of_char c :: nat
      in (9 \<le> n \<and> n \<le> 13) \<or> (28 \<le> n \<and> n \<le> 32) \<or> n = 133 \<or> n = 160)"

definition strip :: "string \<Rightarrow> string" where
  "strip s = rev (dropWhile isspace (rev (dropWhile isspace s)))"

text \<open>\<open>s.split("||")\<close>: cut at each \<open>||\<close>, found from the left.\<close>

fun split_bars :: "string \<Rightarrow> string \<Rightarrow> string list" where
  "split_bars acc (c # d # cs) =
     (if c = CHR ''|'' \<and> d = CHR ''|'' then rev acc # split_bars [] cs
      else split_bars (c # acc) (d # cs))"
| "split_bars acc cs = [rev (rev cs @ acc)]"

text \<open>
  \<open>Path(s)\<close>: the components between slashes, without the empty ones and the dots. A
  string that does not start with a slash is a relative path; it is read from the working
  directory \<open>cwd\<close>.
\<close>

fun split_slash :: "string \<Rightarrow> string \<Rightarrow> string list" where
  "split_slash acc [] = [rev acc]"
| "split_slash acc (c # cs) =
     (if c = CHR ''/'' then rev acc # split_slash [] cs else split_slash (c # acc) cs)"

definition path_of :: "path \<Rightarrow> string \<Rightarrow> path" where
  "path_of cwd s =
     (let parts = filter (\<lambda>x. x \<noteq> [] \<and> x \<noteq> ''.'') (split_slash [] s)
      in if startswith s ''/'' then parts else cwd @ parts)"

fun parse_log :: "path \<Rightarrow> string list \<Rightarrow> error + (path \<times> path) list" where
  "parse_log cwd [] = Inr []"
| "parse_log cwd (line # rest) =
     (case split_bars [] (strip line) of
        [src, dst] \<Rightarrow>
          (case parse_log cwd rest of
             Inl e \<Rightarrow> Inl e
           | Inr moves \<Rightarrow> Inr ((path_of cwd src, path_of cwd dst) # moves))
      | _ \<Rightarrow> Inl (ValueError line))"

text \<open>
  \<open>undo_step\<close> is the body of the loop over the reversed moves, for one record; the loop
  stops at the first exception.
\<close>

fun undo_step :: "bool \<Rightarrow> path \<times> path \<Rightarrow> fs \<times> event list \<Rightarrow> error option \<times> fs \<times> event list"
where
  "undo_step dry_run (src, dst) (fs, out) =
     (if exists fs dst
      then (let target = (if exists fs src then safe_destination fs (parent src) (pname dst)
                          else src)
            in if dry_run then (None, (fs, out @ [DryRunUndo dst target]))
               else (case ensure_dir fs (parent target) of
                       (Some e, fs1) \<Rightarrow> (Some e, (fs1, out))
                     | (None, fs1) \<Rightarrow>
                         (case shutil_move fs1 dst target of
                            Inl e \<Rightarrow> (Some e, (fs1, out))
                          | Inr fs2 \<Rightarrow> (None, (fs2, out @ [Undid dst target])))))
      else (None, (fs, out @ [Missing dst])))"

fun undo_loop :: "bool \<Rightarrow> (path \<times> path) list \<Rightarrow> fs \<times> event list \<Rightarrow> error option \<times> fs \<times> event list"
where
  "undo_loop dry_run [] st = (None, st)"
| "undo_loop dry_run (m # rest) st =
     (case undo_step dry_run m st of
        (Some e, st') \<Rightarrow> (Some e, st')
      | (None, st') \<Rightarrow> undo_loop dry_run rest st')"

text \<open>\<open>undo(log_file, dry_run)\<close>, run in the working directory \<open>cwd\<close>.\<close>

definition undo :: "path \<Rightarrow> fs \<Rightarrow> path \<Rightarrow> bool \<Rightarrow> event list \<times> outcome \<times> fs" where
  "undo cwd fs log_file dry_run =
     (case map_of fs log_file of
        None \<Rightarrow> ([LogNotFound log_file], Exit 1, fs)
      | Some Dir \<Rightarrow> ([], Raised (IsADirectoryError log_file), fs)
      | Some (File text) \<Rightarrow>
          (case parse_log cwd (lines_of [] (universal_newlines text)) of
             Inl e \<Rightarrow> ([], Raised e, fs)
           | Inr moves \<Rightarrow>
               (case undo_loop dry_run (rev moves) (fs, []) of
                  (Some e, (fs1, out)) \<Rightarrow> (out, Raised e, fs1)
                | (None, (fs1, out)) \<Rightarrow> (out, Done, fs1))))"

section \<open>System calls that the platform refuses\<close>

text \<open>
  The definitions so far say what each function does when the platform carries out every
  system call. A platform also refuses calls, for reasons that the table does not show: a
  name that is too long, a permission that is missing. \<open>plat call p = Some e\<close> says
  that the call \<open>call\<close> on the path \<open>p\<close> fails with \<open>e\<close>, and the call then raises
  \<open>e\<close>. The functions named \<open>..._on\<close> are the functions of the program run on such a
  platform: each system call is put to the platform first.
\<close>

datatype syscall = Stat | Listdir | Mkdir | Rename | OpenRead | OpenWrite

type_synonym platform = "syscall \<Rightarrow> path \<Rightarrow> error option"

text \<open>
  The limits of a POSIX platform on names: a component of more than 255 bytes or a path
  of more than 4095 bytes is refused by every call (\<open>ENAMETOOLONG\<close>). A code point
  below 128 takes one byte in UTF-8, the others of this model take two.
\<close>

definition utf8_len :: "string \<Rightarrow> nat" where
  "utf8_len s = sum_list (map (\<lambda>c. if (of_char c :: nat) < 128 then 1 else 2) s)"

definition name_limit :: platform where
  "name_limit call p =
     (if (\<exists>c \<in> set p. 255 < utf8_len c) \<or> 4095 < utf8_len (render p)
      then Some (OSError p) else None)"

text \<open>
  \<open>Path.exists()\<close> and \<open>Path.is_dir()\<close>: the answer of the table, unless the platform
  refuses the \<open>stat\<close> call, whose error they raise.
\<close>

definition exists_on :: "platform \<Rightarrow> fs \<Rightarrow> path \<Rightarrow> error + bool" where
  "exists_on plat fs p = (case plat Stat p of Some e \<Rightarrow> Inl e | None \<Rightarrow> Inr (exists fs p))"

definition is_dir_on :: "platform \<Rightarrow> fs \<Rightarrow> path \<Rightarrow> error + bool" where
  "is_dir_on plat fs p = (case plat Stat p of Some e \<Rightarrow> Inl e | None \<Rightarrow> Inr (is_dir fs p))"

text \<open>\<open>os.path.isdir\<close> and \<open>os.path.exists\<close>, which answer \<open>False\<close> where \<open>stat\<close> fails.\<close>

definition isdir_quiet :: "platform \<Rightarrow> fs \<Rightarrow> path \<Rightarrow> bool" where
  "isdir_quiet plat fs p = (plat Stat p = None \<and> is_dir fs p)"

definition exists_quiet :: "platform \<Rightarrow> fs \<Rightarrow> path \<Rightarrow> bool" where
  "exists_quiet plat fs p = (plat Stat p = None \<and> exists fs p)"

text \<open>The loop of \<open>safe_destination\<close>; an existence test that raises ends it.\<close>

function sd_while_on ::
  "platform \<Rightarrow> fs \<Rightarrow> path \<Rightarrow> string \<Rightarrow> string \<Rightarrow> path \<Rightarrow> nat \<Rightarrow> error + path"
where
  "sd_while_on plat fs dst_folder base ext cand k =
     (case exists_on plat fs cand of
        Inl e \<Rightarrow> Inl e
      | Inr found \<Rightarrow>
          if found
          then sd_while_on plat fs dst_folder base ext (renamed dst_folder base ext k) (k + 1)
          else Inr cand)"
  by pat_completeness auto
termination
proof (relation "measure (\<lambda>(plat, fs, d, b, e, cand, k).
          card (taken fs d b e k) + (if exists fs cand then 1 else 0))")
  show "wf (measure (\<lambda>(plat :: platform, fs, d, b, e, cand, k).
          card (taken fs d b e k) + (if exists fs cand then 1 else 0)))"
    by simp
next
  fix plat :: platform and fs :: fs and dst_folder base ext cand and k :: nat and found :: bool
  assume "exists_on plat fs cand = Inr found" and "found"
  then have ex: "exists fs cand" by (auto simp: exists_on_def split: option.splits)
  have n: "k \<notin> taken fs dst_folder base ext (Suc k)" by (simp add: taken_def)
  have "card (taken fs dst_folder base ext (Suc k))
          + (if exists fs (renamed dst_folder base ext k) then 1 else 0)
        = card (taken fs dst_folder base ext k)"
    using n finite_taken [of fs dst_folder base ext "Suc k"]
    by (subst (2) taken_step) simp
  then show "((plat, fs, dst_folder, base, ext, renamed dst_folder base ext k, k + 1),
              (plat, fs, dst_folder, base, ext, cand, k))
             \<in> measure (\<lambda>(plat, fs, d, b, e, cand, k).
                  card (taken fs d b e k) + (if exists fs cand then 1 else 0))"
    using ex by simp
qed

declare sd_while_on.simps [simp del]

definition safe_destination_on :: "platform \<Rightarrow> fs \<Rightarrow> path \<Rightarrow> string \<Rightarrow> error + path" where
  "safe_destination_on plat fs dst_folder filename =
     (let base = stem filename;
          ext = suffix filename;
          candidate = join dst_folder filename
      in sd_while_on plat fs dst_folder base ext candidate 2)"

text \<open>
  \<open>ensure_dir\<close>: a failure of \<open>os.mkdir\<close> other than a missing parent is swallowed when
  the path is a directory, which \<open>is_dir()\<close> tests, and that test raises in its turn when
  \<open>stat\<close> is refused.
\<close>

definition os_mkdir_on :: "platform \<Rightarrow> fs \<Rightarrow> path \<Rightarrow> error + fs" where
  "os_mkdir_on plat fs p = (case plat Mkdir p of Some e \<Rightarrow> Inl e | None \<Rightarrow> os_mkdir fs p)"

definition mkdir_exist_ok_on :: "platform \<Rightarrow> fs \<Rightarrow> path \<Rightarrow> error + fs" where
  "mkdir_exist_ok_on plat fs p =
     (case os_mkdir_on plat fs p of
        Inr fs' \<Rightarrow> Inr fs'
      | Inl (FileNotFoundError q) \<Rightarrow> Inl (FileNotFoundError q)
      | Inl e \<Rightarrow>
          (case is_dir_on plat fs p of
             Inl e' \<Rightarrow> Inl e'
           | Inr d \<Rightarrow> if d then Inr fs else Inl e))"

function ensure_dir_on :: "platform \<Rightarrow> fs \<Rightarrow> path \<Rightarrow> error option \<times> fs" where
  "ensure_dir_on plat fs p =
     (case os_mkdir_on plat fs p of
        Inr fs' \<Rightarrow> (None, fs')
      | Inl (FileNotFoundError q) \<Rightarrow>
          (if parent p = p then (Some (FileNotFoundError q), fs)
           else (case ensure_dir_on plat fs (parent p) of
                   (Some e, fs1) \<Rightarrow> (Some e, fs1)
                 | (None, fs1) \<Rightarrow>
                     (case mkdir_exist_ok_on plat fs1 p of
                        Inl e \<Rightarrow> (Some e, fs1)
                      | Inr fs2 \<Rightarrow> (None, fs2))))
      | Inl e \<Rightarrow>
          (case is_dir_on plat fs p of
             Inl e' \<Rightarrow> (Some e', fs)
           | Inr d \<Rightarrow> if d then (None, fs) else (Some e, fs)))"
  by pat_completeness auto
termination
proof (relation "measure (\<lambda>(plat, fs, p). length p)")
  show "wf (measure (\<lambda>(plat :: platform, fs :: fs, p :: path). length p))" by simp
next
  fix plat :: platform and fs :: fs and p :: path
  assume "parent p \<noteq> p"
  then have "p \<noteq> []" by (auto simp: parent_def)
  then show "((plat, fs, parent p), (plat, fs, p)) \<in> measure (\<lambda>(plat, fs, p). length p)"
    by (simp add: parent_def)
qed

declare ensure_dir_on.simps [simp del]

text \<open>
  \<open>os.rename\<close> names two paths, and is refused when the platform refuses either. When
  \<open>os.rename\<close> raises, \<open>shutil.move\<close> falls back on copying; on one device the copy
  meets the same refusal, and the model raises the error of \<open>os.rename\<close>.
\<close>

definition os_rename_on :: "platform \<Rightarrow> fs \<Rightarrow> path \<Rightarrow> path \<Rightarrow> error + fs" where
  "os_rename_on plat fs src dst =
     (case plat Rename src of
        Some e \<Rightarrow> Inl e
      | None \<Rightarrow> (case plat Rename dst of Some e \<Rightarrow> Inl e | None \<Rightarrow> os_rename fs src dst))"

definition shutil_move_on :: "platform \<Rightarrow> fs \<Rightarrow> path \<Rightarrow> path \<Rightarrow> error + fs" where
  "shutil_move_on plat fs src dst =
     (if isdir_quiet plat fs dst
      then (if src = dst then os_rename_on plat fs src dst
            else (let real_dst = join dst (pname src)
                  in if exists_quiet plat fs real_dst then Inl (ShutilError real_dst)
                     else os_rename_on plat fs src real_dst))
      else os_rename_on plat fs src dst)"

definition open_w_on :: "platform \<Rightarrow> fs \<Rightarrow> path \<Rightarrow> error + fs" where
  "open_w_on plat fs p = (case plat OpenWrite p of Some e \<Rightarrow> Inl e | None \<Rightarrow> open_w fs p)"

text \<open>\<open>open(p, "r")\<close> and reading the whole text.\<close>

definition read_on :: "platform \<Rightarrow> fs \<Rightarrow> path \<Rightarrow> error + string" where
  "read_on plat fs p =
     (case plat OpenRead p of
        Some e \<Rightarrow> Inl e
      | None \<Rightarrow>
          (case map_of fs p of
             None \<Rightarrow> Inl (FileNotFoundError p)
           | Some Dir \<Rightarrow> Inl (IsADirectoryError p)
           | Some (File body) \<Rightarrow> Inr body))"

text \<open>
  The listing of the loop. The walk of \<open>rglob\<close> passes over what it may not list, so that
  only \<open>iterdir\<close> raises.
\<close>

definition listing_on :: "platform \<Rightarrow> fs \<Rightarrow> path \<Rightarrow> bool \<Rightarrow> error + path list" where
  "listing_on plat fs folder include_subdirs =
     (if include_subdirs then Inr (rglob fs folder)
      else (case plat Listdir folder of
              Some e \<Rightarrow> Inl e
            | None \<Rightarrow> Inr (iterdir fs folder)))"

definition move_file_on ::
  "platform \<Rightarrow> fs \<Rightarrow> path \<Rightarrow> path \<Rightarrow> bool \<Rightarrow> string option
     \<Rightarrow> error option \<times> fs \<times> string option \<times> event list"
where
  "move_file_on plat fs src dst dry_run log_f =
     (if dry_run then (None, fs, log_f, [DryRunMove src dst])
      else (case ensure_dir_on plat fs (parent dst) of
              (Some e, fs1) \<Rightarrow> (Some e, fs1, log_f, [])
            | (None, fs1) \<Rightarrow>
                (case shutil_move_on plat fs1 src dst of
                   Inl e \<Rightarrow> (Some e, fs1, log_f, [])
                 | Inr fs2 \<Rightarrow>
                     (None, fs2,
                      (case log_f of
                         None \<Rightarrow> None
                       | Some body \<Rightarrow> Some (body @ render src @ ''||'' @ render dst @ [CHR 0x0A])),
                      [Moved src dst]))))"

fun organize_step_on ::
  "platform \<Rightarrow> path \<Rightarrow> bool \<Rightarrow> bool \<Rightarrow> path \<Rightarrow> run_state \<Rightarrow> error option \<times> run_state"
where
  "organize_step_on plat folder dry_run include_subdirs p (fs, log_f, processed, out) =
     (case is_dir_on plat fs p of
        Inl e \<Rightarrow> (Some e, (fs, log_f, processed, out))
      | Inr d \<Rightarrow>
          if d then (None, (fs, log_f, processed, out))
          else if startswith (pname p) LOG_PREFIX then (None, (fs, log_f, processed, out))
          else if \<not> include_subdirs \<and> parent p \<noteq> folder then (None, (fs, log_f, processed, out))
          else
            (let ext = suffix (pname p);
                 bucket = pick_bucket ext;
                 dst_folder = join folder bucket
             in case safe_destination_on plat fs dst_folder (pname p) of
                  Inl e \<Rightarrow> (Some e, (fs, log_f, processed, out))
                | Inr dst \<Rightarrow>
                    (case move_file_on plat fs p dst dry_run log_f of
                       (Some e, fs', log_f', msgs) \<Rightarrow>
                         (Some e, (fs', log_f', processed, out @ msgs))
                     | (None, fs', log_f', msgs) \<Rightarrow>
                         (None, (fs', log_f', processed + 1, out @ msgs)))))"

fun organize_loop_on ::
  "platform \<Rightarrow> path \<Rightarrow> bool \<Rightarrow> bool \<Rightarrow> path list \<Rightarrow> run_state \<Rightarrow> error option \<times> run_state"
where
  "organize_loop_on plat folder dry_run include_subdirs [] st = (None, st)"
| "organize_loop_on plat folder dry_run include_subdirs (p # ps) st =
     (case organize_step_on plat folder dry_run include_subdirs p st of
        (Some e, st') \<Rightarrow> (Some e, st')
      | (None, st') \<Rightarrow> organize_loop_on plat folder dry_run include_subdirs ps st')"

definition organize_on ::
  "platform \<Rightarrow> fs \<Rightarrow> path \<Rightarrow> bool \<Rightarrow> bool \<Rightarrow> string \<Rightarrow> event list \<times> outcome \<times> fs"
where
  "organize_on plat fs folder dry_run include_subdirs ts =
     (case is_dir_on plat fs folder of
        Inl e \<Rightarrow> ([], Raised e, fs)
      | Inr d \<Rightarrow>
          if \<not> d then ([NotADirectory folder], Exit 1, fs)
          else
            (let log_path = join folder (log_name ts)
             in case (if dry_run then Inr (fs, None)
                      else (case open_w_on plat fs log_path of
                              Inl e \<Rightarrow> Inl e
                            | Inr fs' \<Rightarrow> Inr (fs', Some [])))
                of
                  Inl e \<Rightarrow> ([], Raised e, fs)
                | Inr (fs0, log_f) \<Rightarrow>
                    (case listing_on plat fs0 folder include_subdirs of
                       Inl e \<Rightarrow> ([], Raised e, close_log fs0 log_path log_f)
                     | Inr iterator \<Rightarrow>
                         (case organize_loop_on plat folder dry_run include_subdirs iterator
                                 (fs0, log_f, 0, [])
                          of
                            (Some e, (fs1, log_f1, processed, out)) \<Rightarrow>
                              (out, Raised e, close_log fs1 log_path log_f1)
                          | (None, (fs1, log_f1, processed, out)) \<Rightarrow>
                              (out @ (if log_f1 \<noteq> None then [LogSaved log_path] else [])
                                   @ [Processed processed],
                               Done, close_log fs1 log_path log_f1)))))"

fun undo_step_on ::
  "platform \<Rightarrow> bool \<Rightarrow> path \<times> path \<Rightarrow> fs \<times> event list \<Rightarrow> error option \<times> fs \<times> event list"
where
  "undo_step_on plat dry_run (src, dst) (fs, out) =
     (case exists_on plat fs dst of
        Inl e \<Rightarrow> (Some e, (fs, out))
      | Inr dst_there \<Rightarrow>
          if \<not> dst_there then (None, (fs, out @ [Missing dst]))
          else
            (case exists_on plat fs src of
               Inl e \<Rightarrow> (Some e, (fs, out))
             | Inr src_there \<Rightarrow>
                 (case (if src_there then safe_destination_on plat fs (parent src) (pname dst)
                        else Inr src)
                  of
                    Inl e \<Rightarrow> (Some e, (fs, out))
                  | Inr target \<Rightarrow>
                      if dry_run then (None, (fs, out @ [DryRunUndo dst target]))
                      else (case ensure_dir_on plat fs (parent target) of
                              (Some e, fs1) \<Rightarrow> (Some e, (fs1, out))
                            | (None, fs1) \<Rightarrow>
                                (case shutil_move_on plat fs1 dst target of
                                   Inl e \<Rightarrow> (Some e, (fs1, out))
                                 | Inr fs2 \<Rightarrow> (None, (fs2, out @ [Undid dst target])))))))"

fun undo_loop_on ::
  "platform \<Rightarrow> bool \<Rightarrow> (path \<times> path) list \<Rightarrow> fs \<times> event list
     \<Rightarrow> error option \<times> fs \<times> event list"
where
  "undo_loop_on plat dry_run [] st = (None, st)"
| "undo_loop_on plat dry_run (m # rest) st =
     (case undo_step_on plat dry_run m st of
        (Some e, st') \<Rightarrow> (Some e, st')
      | (None, st') \<Rightarrow> undo_loop_on plat dry_run rest st')"

definition undo_on ::
  "platform \<Rightarrow> path \<Rightarrow> fs \<Rightarrow> path \<Rightarrow> bool \<Rightarrow> event list \<times> outcome \<times> fs"
where
  "undo_on plat cwd fs log_file dry_run =
     (case exists_on plat fs log_file of
        Inl e \<Rightarrow> ([], Raised e, fs)
      | Inr there \<Rightarrow>
          if \<not> there then ([LogNotFound log_file], Exit 1, fs)
          else
            (case read_on plat fs log_file of
               Inl e \<Rightarrow> ([], Raised e, fs)
             | Inr body \<Rightarrow>
                 (case parse_log cwd (lines_of [] (universal_newlines body)) of
                    Inl e \<Rightarrow> ([], Raised e, fs)
                  | Inr moves \<Rightarrow>
                      (case undo_loop_on plat dry_run (rev moves) (fs, []) of
                         (Some e, (fs1, out)) \<Rightarrow> (out, Raised e, fs1)
                       | (None, (fs1, out)) \<Rightarrow> (out, Done, fs1)))))"

section \<open>Properties of the classifier\<close>

lemma find_bucket_in_table: "find_bucket t e = Some b \<Longrightarrow> b \<in> fst ` set t"
  by (induction t e rule: find_bucket.induct) (auto split: if_splits)

lemma find_bucket_empty: "find_bucket CATEGORIES [] = None"
  by (simp add: CATEGORIES_def)

lemma table_not_noext: "find_bucket CATEGORIES e \<noteq> Some NOEXT_BUCKET"
proof
  assume "find_bucket CATEGORIES e = Some NOEXT_BUCKET"
  then have "NOEXT_BUCKET \<in> fst ` set CATEGORIES" by (rule find_bucket_in_table)
  then show False by (simp add: CATEGORIES_def NOEXT_BUCKET_def)
qed

text \<open>
  C3, as the claim states it, fails: the emptiness test comes before the normalisation, so
  the extension \<open>.\<close>, which is empty once its dot is stripped, is looked up in the table
  and gets the bucket for unknown extensions.
\<close>

theorem pick_bucket_dot_counterexample:
  "lstrip_dot (lower ''.'') = [] \<and> pick_bucket ''.'' = ''other'' \<and> pick_bucket ''.'' \<noteq> NOEXT_BUCKET"
  by (simp add: pick_bucket_def lstrip_dot_def lower_def lower_char_def find_bucket_empty
      OTHER_BUCKET_def NOEXT_BUCKET_def)

text \<open>
  C3 (amended): \<open>pick_bucket\<close> returns the no-extension bucket exactly when the input
  string itself is empty. Every other input is lowercased, stripped of all its leading
  dots and looked up in the Category Table; when the table has no entry, and in particular
  when nothing is left after the dots, the result is the bucket for unknown extensions.
\<close>

theorem pick_bucket_spec:
  "(pick_bucket ext = NOEXT_BUCKET \<longleftrightarrow> ext = []) \<and>
   (ext \<noteq> [] \<longrightarrow>
      pick_bucket ext =
        (case find_bucket CATEGORIES (lstrip_dot (lower ext)) of
           Some bucket \<Rightarrow> bucket | None \<Rightarrow> OTHER_BUCKET)) \<and>
   (ext \<noteq> [] \<and> lstrip_dot (lower ext) = [] \<longrightarrow> pick_bucket ext = OTHER_BUCKET)"
proof -
  have a: "pick_bucket ext = NOEXT_BUCKET \<longleftrightarrow> ext = []"
  proof (cases "ext = []")
    case True
    then show ?thesis by (simp add: pick_bucket_def)
  next
    case False
    have "pick_bucket ext \<noteq> NOEXT_BUCKET"
    proof (cases "find_bucket CATEGORIES (lstrip_dot (lower ext))")
      case None
      with False show ?thesis
        by (simp add: pick_bucket_def OTHER_BUCKET_def NOEXT_BUCKET_def)
    next
      case (Some b)
      with False table_not_noext [of "lstrip_dot (lower ext)"] show ?thesis
        by (simp add: pick_bucket_def)
    qed
    with False show ?thesis by simp
  qed
  have b: "ext \<noteq> [] \<longrightarrow>
      pick_bucket ext =
        (case find_bucket CATEGORIES (lstrip_dot (lower ext)) of
           Some bucket \<Rightarrow> bucket | None \<Rightarrow> OTHER_BUCKET)"
    by (simp add: pick_bucket_def)
  have c: "ext \<noteq> [] \<and> lstrip_dot (lower ext) = [] \<longrightarrow> pick_bucket ext = OTHER_BUCKET"
    by (simp add: pick_bucket_def find_bucket_empty)
  from a b c show ?thesis by blast
qed

theorem pick_bucket_spec_witness:
  "''.JPG'' \<noteq> [] \<and> pick_bucket ''.JPG'' = ''images'' \<and> pick_bucket ''.JPG'' \<noteq> NOEXT_BUCKET"
proof -
  have h: "''.JPG'' \<noteq> []" by simp
  have l: "lstrip_dot (lower ''.JPG'') = ''jpg''"
    by code_simp
  have f: "find_bucket CATEGORIES ''jpg'' = Some ''images''"
    by (simp add: CATEGORIES_def)
  from pick_bucket_spec [of "''.JPG''"] h l f show ?thesis by auto
qed

section \<open>Properties of the collision resolver\<close>

lemma stem_suffix: "stem n @ suffix n = n"
  by (simp add: stem_def suffix_def Let_def)

text \<open>The loop returns its first candidate if that is free, else the first free renamed one.\<close>

lemma sd_while_spec:
  "(\<not> exists fs cand \<and> sd_while fs d b e cand k = cand) \<or>
   (exists fs cand \<and>
    (\<exists>j\<ge>k. sd_while fs d b e cand k = renamed d b e j \<and> \<not> exists fs (renamed d b e j) \<and>
       (\<forall>i. k \<le> i \<and> i < j \<longrightarrow> exists fs (renamed d b e i))))"
proof (induction fs d b e cand k rule: sd_while.induct)
  case (1 fs d b e cand k)
  show ?case
  proof (cases "exists fs cand")
    case False
    then show ?thesis by (subst sd_while.simps) simp
  next
    case True
    have step: "sd_while fs d b e cand k = sd_while fs d b e (renamed d b e k) (k + 1)"
      using True by (subst sd_while.simps) simp
    show ?thesis
    proof (cases "exists fs (renamed d b e k)")
      case False
      with "1.IH" [OF True] have "sd_while fs d b e (renamed d b e k) (k + 1) = renamed d b e k"
        by simp
      with step False True show ?thesis by auto
    next
      case ex: True
      with "1.IH" [OF True] obtain j where j: "k + 1 \<le> j"
        "sd_while fs d b e (renamed d b e k) (k + 1) = renamed d b e j"
        "\<not> exists fs (renamed d b e j)"
        "\<forall>i. k + 1 \<le> i \<and> i < j \<longrightarrow> exists fs (renamed d b e i)"
        by auto
      have "\<forall>i. k \<le> i \<and> i < j \<longrightarrow> exists fs (renamed d b e i)"
      proof (intro allI impI)
        fix i assume "k \<le> i \<and> i < j"
        then have "i = k \<or> (k + 1 \<le> i \<and> i < j)" by auto
        then show "exists fs (renamed d b e i)" using ex j(4) by auto
      qed
      moreover have "k \<le> j" using j(1) by simp
      ultimately have "\<exists>j\<ge>k. sd_while fs d b e cand k = renamed d b e j \<and>
          \<not> exists fs (renamed d b e j) \<and>
          (\<forall>i. k \<le> i \<and> i < j \<longrightarrow> exists fs (renamed d b e i))"
        using j(2,3) step by (intro exI [of _ j]) simp
      with True show ?thesis by simp
    qed
  qed
qed

text \<open>Among any \<open>length fs + 1\<close> renamed candidates in a row, one is free.\<close>

lemma free_candidate: "\<exists>k. n \<le> k \<and> k \<le> length fs + n \<and> \<not> exists fs (renamed d b e k)"
proof (rule ccontr)
  assume "\<not> ?thesis"
  then have all: "\<And>k. n \<le> k \<Longrightarrow> k \<le> length fs + n \<Longrightarrow> renamed d b e k \<in> fst ` set fs"
    by (auto simp: exists_iff)
  have "renamed d b e ` {n..length fs + n} \<subseteq> fst ` set fs"
    using all by auto
  then have "card (renamed d b e ` {n..length fs + n}) \<le> card (fst ` set fs)"
    by (intro card_mono) simp_all
  moreover have "card (renamed d b e ` {n..length fs + n}) = length fs + 1"
    by (subst card_image) (auto intro: inj_on_subset [OF renamed_inj])
  moreover have "card (fst ` set fs) \<le> length fs"
    by (rule order_trans [OF card_image_le card_length]) simp
  ultimately show False by simp
qed

text \<open>
  Where \<open>suffix\<close> and \<open>stem\<close> cut a name: at its last dot, when there is something before
  the dot and something after it; a name with no such dot is not cut.
\<close>

lemma rfind_last_dot:
  assumes "c \<notin> set e"
  shows "rfind c (s @ c # e) = int (length s)"
proof -
  have "takeWhile (\<lambda>x. x \<noteq> c) (rev e @ c # rev s) = rev e"
    using assms by (subst takeWhile_append2) auto
  then show ?thesis by (simp add: rfind_def)
qed

lemma suffix_cut:
  assumes "s \<noteq> []" "e \<noteq> []" "CHR ''.'' \<notin> set e"
  shows "stem (s @ CHR ''.'' # e) = s \<and> suffix (s @ CHR ''.'' # e) = CHR ''.'' # e"
  using assms by (simp add: stem_def suffix_def rfind_last_dot Let_def)

lemma suffix_no_cut:
  assumes "\<forall>s e. f = s @ CHR ''.'' # e \<longrightarrow> s = [] \<or> e = [] \<or> CHR ''.'' \<in> set e"
  shows "stem f = f \<and> suffix f = []"
proof (cases "CHR ''.'' \<in> set f")
  case False
  then show ?thesis by (simp add: stem_def suffix_def rfind_def)
next
  case True
  then obtain s e where f: "f = s @ CHR ''.'' # e" and e: "CHR ''.'' \<notin> set e"
    by (auto dest: split_list_last)
  from assms f e have "s = [] \<or> e = []" by blast
  moreover have "rfind CHR ''.'' f = int (length s)" using f e by (simp add: rfind_last_dot)
  ultimately show ?thesis using f by (auto simp: stem_def suffix_def Let_def)
qed

text \<open>
  The loop on a platform: it raises what the first refused existence test raises, and
  returns the first candidate that passes its test and does not exist.
\<close>

lemma sd_while_on_spec:
  "(\<exists>x. plat Stat cand = Some x \<and> sd_while_on plat fs d b e cand k = Inl x) \<or>
   (plat Stat cand = None \<and> \<not> exists fs cand \<and> sd_while_on plat fs d b e cand k = Inr cand) \<or>
   (plat Stat cand = None \<and> exists fs cand \<and>
    (\<exists>j\<ge>k. (\<forall>i. k \<le> i \<and> i < j \<longrightarrow>
                 plat Stat (renamed d b e i) = None \<and> exists fs (renamed d b e i)) \<and>
            (case plat Stat (renamed d b e j) of
               None \<Rightarrow> \<not> exists fs (renamed d b e j) \<and>
                        sd_while_on plat fs d b e cand k = Inr (renamed d b e j)
             | Some x \<Rightarrow> sd_while_on plat fs d b e cand k = Inl x)))"
proof (induction plat fs d b e cand k rule: sd_while_on.induct)
  case (1 plat fs d b e cand k)
  show ?case
  proof (cases "plat Stat cand")
    case (Some x)
    then show ?thesis by (subst sd_while_on.simps) (simp add: exists_on_def)
  next
    case None
    show ?thesis
    proof (cases "exists fs cand")
      case False
      with None show ?thesis by (subst sd_while_on.simps) (simp add: exists_on_def)
    next
      case True
      have eo: "exists_on plat fs cand = Inr True" using None True by (simp add: exists_on_def)
      have step: "sd_while_on plat fs d b e cand k
                    = sd_while_on plat fs d b e (renamed d b e k) (k + 1)"
        using eo by (subst sd_while_on.simps) simp
      note IH = "1.IH" [OF eo, simplified]
      let ?P = "\<lambda>j. (\<forall>i. k \<le> i \<and> i < j \<longrightarrow>
                 plat Stat (renamed d b e i) = None \<and> exists fs (renamed d b e i)) \<and>
            (case plat Stat (renamed d b e j) of
               None \<Rightarrow> \<not> exists fs (renamed d b e j) \<and>
                        sd_while_on plat fs d b e cand k = Inr (renamed d b e j)
             | Some x \<Rightarrow> sd_while_on plat fs d b e cand k = Inl x)"
      have "\<exists>j\<ge>k. ?P j"
      proof (cases "plat Stat (renamed d b e k)")
        case (Some x)
        with IH have "sd_while_on plat fs d b e (renamed d b e k) (k + 1) = Inl x" by auto
        with step Some have "?P k" by auto
        then show ?thesis by blast
      next
        case none: None
        show ?thesis
        proof (cases "exists fs (renamed d b e k)")
          case False
          with IH none have "sd_while_on plat fs d b e (renamed d b e k) (k + 1)
                               = Inr (renamed d b e k)" by auto
          with step none False have "?P k" by auto
          then show ?thesis by blast
        next
          case ex: True
          with IH none obtain j where j: "k + 1 \<le> j"
            "\<forall>i. k + 1 \<le> i \<and> i < j \<longrightarrow>
                 plat Stat (renamed d b e i) = None \<and> exists fs (renamed d b e i)"
            "case plat Stat (renamed d b e j) of
               None \<Rightarrow> \<not> exists fs (renamed d b e j) \<and>
                        sd_while_on plat fs d b e (renamed d b e k) (k + 1) = Inr (renamed d b e j)
             | Some x \<Rightarrow> sd_while_on plat fs d b e (renamed d b e k) (k + 1) = Inl x"
            by auto
          have "\<forall>i. k \<le> i \<and> i < j \<longrightarrow>
                 plat Stat (renamed d b e i) = None \<and> exists fs (renamed d b e i)"
          proof (intro allI impI)
            fix i assume "k \<le> i \<and> i < j"
            then have "i = k \<or> (k + 1 \<le> i \<and> i < j)" by auto
            then show "plat Stat (renamed d b e i) = None \<and> exists fs (renamed d b e i)"
              using ex none j(2) by auto
          qed
          with j(3) step have "?P j" by (auto split: option.splits)
          moreover have "k \<le> j" using j(1) by simp
          ultimately show ?thesis by blast
        qed
      qed
      with None True show ?thesis by simp
    qed
  qed
qed

lemma sd_while_on_cases:
  obtains (refused) x where "plat Stat cand = Some x" "sd_while_on plat fs d b e cand k = Inl x"
  | (free) "plat Stat cand = None" "\<not> exists fs cand" "sd_while_on plat fs d b e cand k = Inr cand"
  | (found) i where "k \<le> i"
      "\<forall>n. k \<le> n \<and> n < i \<longrightarrow> plat Stat (renamed d b e n) = None \<and> exists fs (renamed d b e n)"
      "plat Stat (renamed d b e i) = None" "\<not> exists fs (renamed d b e i)"
      "sd_while_on plat fs d b e cand k = Inr (renamed d b e i)"
  | (raised) i x where "k \<le> i"
      "\<forall>n. k \<le> n \<and> n < i \<longrightarrow> plat Stat (renamed d b e n) = None \<and> exists fs (renamed d b e n)"
      "plat Stat (renamed d b e i) = Some x"
      "sd_while_on plat fs d b e cand k = Inl x"
proof -
  from sd_while_on_spec [of plat cand fs d b e k]
  consider (a) x where "plat Stat cand = Some x" "sd_while_on plat fs d b e cand k = Inl x"
    | (b) "plat Stat cand = None" "\<not> exists fs cand" "sd_while_on plat fs d b e cand k = Inr cand"
    | (c) j where "k \<le> j"
        "\<forall>i. k \<le> i \<and> i < j \<longrightarrow> plat Stat (renamed d b e i) = None \<and> exists fs (renamed d b e i)"
        "case plat Stat (renamed d b e j) of
               None \<Rightarrow> \<not> exists fs (renamed d b e j) \<and>
                        sd_while_on plat fs d b e cand k = Inr (renamed d b e j)
             | Some x \<Rightarrow> sd_while_on plat fs d b e cand k = Inl x"
    by (elim disjE exE conjE) auto
  then show thesis
  proof cases
    case a
    then show ?thesis by (rule refused)
  next
    case b
    then show ?thesis by (rule free)
  next
    case c
    show ?thesis
    proof (cases "plat Stat (renamed d b e j)")
      case None
      with c(3) have "\<not> exists fs (renamed d b e j)"
        "sd_while_on plat fs d b e cand k = Inr (renamed d b e j)" by simp_all
      with c(1,2) None show ?thesis by (rule found)
    next
      case (Some x)
      with c(3) have "sd_while_on plat fs d b e cand k = Inl x" by simp
      with c(1,2) Some show ?thesis by (rule raised)
    qed
  qed
qed

text \<open>
  C6, as the claim states it, fails: the existence test of a candidate can raise. The name
  \<open>aaa...a\<close> of 255 bytes exists in \<open>/d\<close>; the candidate for \<open>k = 2\<close> has 259 bytes
  and does not exist, but \<open>exists()\<close> raises \<open>OSError\<close> (name too long) on it, and
  \<open>safe_destination\<close> returns no path.
\<close>

theorem safe_destination_name_limit_counterexample:
  "exists [([], Dir), ([''d''], Dir), ([''d'', replicate 255 CHR ''a''], File [])]
     (join [''d''] (replicate 255 CHR ''a'')) \<and>
   \<not> exists [([], Dir), ([''d''], Dir), ([''d'', replicate 255 CHR ''a''], File [])]
     (renamed [''d''] (stem (replicate 255 CHR ''a'')) (suffix (replicate 255 CHR ''a'')) 2) \<and>
   safe_destination_on name_limit
     [([], Dir), ([''d''], Dir), ([''d'', replicate 255 CHR ''a''], File [])]
     [''d''] (replicate 255 CHR ''a'')
     = Inl (OSError [''d'', replicate 255 CHR ''a'' @ '' (2)''])"
  by code_simp

text \<open>
  C6 (amended): \<open>safe_destination\<close> tests \<open>dst_folder / filename\<close>, then
  \<open>dst_folder / "{stem} ({k}){extension}"\<close> for \<open>k = 2, 3, ...\<close> in this order. It
  returns the first of these paths that does not exist, provided that no test up to there is
  refused by the platform; when a test is refused, it raises the error of that test, and
  all candidates tested before it exist. The extension is the part of the file name from its
  last dot on, when that dot is neither the first nor the last character of the name, and
  the stem is what stands before that dot; a name with no such dot has the empty extension
  and is its own stem.
\<close>

theorem safe_destination_on_spec:
  "(\<forall>x. plat Stat (join dst_folder filename) = Some x \<longrightarrow>
      safe_destination_on plat fs dst_folder filename = Inl x) \<and>
   (plat Stat (join dst_folder filename) = None \<and> \<not> exists fs (join dst_folder filename) \<longrightarrow>
      safe_destination_on plat fs dst_folder filename = Inr (join dst_folder filename)) \<and>
   (plat Stat (join dst_folder filename) = None \<and> exists fs (join dst_folder filename) \<longrightarrow>
      (\<exists>k\<ge>2.
         (\<forall>j. 2 \<le> j \<and> j < k \<longrightarrow>
            plat Stat (renamed dst_folder (stem filename) (suffix filename) j) = None \<and>
            exists fs (renamed dst_folder (stem filename) (suffix filename) j)) \<and>
         (case plat Stat (renamed dst_folder (stem filename) (suffix filename) k) of
            None \<Rightarrow>
              \<not> exists fs (renamed dst_folder (stem filename) (suffix filename) k) \<and>
              safe_destination_on plat fs dst_folder filename
                = Inr (renamed dst_folder (stem filename) (suffix filename) k)
          | Some x \<Rightarrow> safe_destination_on plat fs dst_folder filename = Inl x))) \<and>
   (\<forall>k. renamed dst_folder (stem filename) (suffix filename) k
          = join dst_folder (stem filename @ '' ('' @ str_nat k @ '')'' @ suffix filename)) \<and>
   (\<forall>s e. filename = s @ CHR ''.'' # e \<and> s \<noteq> [] \<and> e \<noteq> [] \<and> CHR ''.'' \<notin> set e \<longrightarrow>
      stem filename = s \<and> suffix filename = CHR ''.'' # e) \<and>
   ((\<forall>s e. filename = s @ CHR ''.'' # e \<longrightarrow> s = [] \<or> e = [] \<or> CHR ''.'' \<in> set e) \<longrightarrow>
      stem filename = filename \<and> suffix filename = [])"
proof -
  let ?c = "join dst_folder filename"
  note sp = sd_while_on_spec [of plat ?c fs dst_folder "stem filename" "suffix filename" 2]
  have res: "safe_destination_on plat fs dst_folder filename
       = sd_while_on plat fs dst_folder (stem filename) (suffix filename) ?c 2"
    by (simp add: safe_destination_on_def)
  have a: "\<forall>x. plat Stat ?c = Some x \<longrightarrow> safe_destination_on plat fs dst_folder filename = Inl x"
    using sp res by auto
  have b: "plat Stat ?c = None \<and> \<not> exists fs ?c \<longrightarrow>
      safe_destination_on plat fs dst_folder filename = Inr ?c"
    using sp res by auto
  have c: "plat Stat ?c = None \<and> exists fs ?c \<longrightarrow>
      (\<exists>k\<ge>2.
         (\<forall>j. 2 \<le> j \<and> j < k \<longrightarrow>
            plat Stat (renamed dst_folder (stem filename) (suffix filename) j) = None \<and>
            exists fs (renamed dst_folder (stem filename) (suffix filename) j)) \<and>
         (case plat Stat (renamed dst_folder (stem filename) (suffix filename) k) of
            None \<Rightarrow>
              \<not> exists fs (renamed dst_folder (stem filename) (suffix filename) k) \<and>
              safe_destination_on plat fs dst_folder filename
                = Inr (renamed dst_folder (stem filename) (suffix filename) k)
          | Some x \<Rightarrow> safe_destination_on plat fs dst_folder filename = Inl x))"
    using sp unfolding res by auto
  have d: "\<forall>k. renamed dst_folder (stem filename) (suffix filename) k
          = join dst_folder (stem filename @ '' ('' @ str_nat k @ '')'' @ suffix filename)"
    by (simp add: renamed_def)
  have e: "\<forall>s e. filename = s @ CHR ''.'' # e \<and> s \<noteq> [] \<and> e \<noteq> [] \<and> CHR ''.'' \<notin> set e \<longrightarrow>
      stem filename = s \<and> suffix filename = CHR ''.'' # e"
    using suffix_cut by blast
  have f: "(\<forall>s e. filename = s @ CHR ''.'' # e \<longrightarrow> s = [] \<or> e = [] \<or> CHR ''.'' \<in> set e) \<longrightarrow>
      stem filename = filename \<and> suffix filename = []"
    using suffix_no_cut by blast
  from a b c d e f show ?thesis by blast
qed

theorem safe_destination_on_spec_witness:
  "name_limit Stat (join [''d''] ''a.txt'') = None \<and>
   exists [([''d''], Dir), ([''d'', ''a.txt''], File []), ([''d'', ''a (2).txt''], File [])]
     (join [''d''] ''a.txt'') \<and>
   safe_destination_on name_limit
     [([''d''], Dir), ([''d'', ''a.txt''], File []), ([''d'', ''a (2).txt''], File [])]
     [''d''] ''a.txt'' = Inr [''d'', ''a (3).txt''] \<and>
   stem ''a.txt'' = ''a'' \<and> suffix ''a.txt'' = ''.txt''"
proof -
  let ?fs = "[([''d''], Dir), ([''d'', ''a.txt''], File []), ([''d'', ''a (2).txt''], File [])]"
  let ?r = "renamed [''d''] (stem ''a.txt'') (suffix ''a.txt'')"
  let ?res = "safe_destination_on name_limit ?fs [''d''] ''a.txt''"
  note spec = safe_destination_on_spec [of name_limit "[''d'']" "''a.txt''" ?fs]
  have p: "name_limit Stat (join [''d''] ''a.txt'') = None" by code_simp
  have h: "exists ?fs (join [''d''] ''a.txt'')" by code_simp
  have cut: "''a.txt'' = ''a'' @ CHR ''.'' # ''txt'' \<and> ''a'' \<noteq> [] \<and> ''txt'' \<noteq> [] \<and>
             CHR ''.'' \<notin> set ''txt''"
    by simp
  from spec cut have parts: "stem ''a.txt'' = ''a'' \<and> suffix ''a.txt'' = ''.txt''"
    by blast
  from spec have r: "\<And>k. ?r k = join [''d''] (''a'' @ '' ('' @ str_nat k @ '')'' @ ''.txt'')"
    unfolding parts [THEN conjunct1] parts [THEN conjunct2] by blast
  have r2: "?r 2 = [''d'', ''a (2).txt'']" unfolding r by code_simp
  have r3: "?r 3 = [''d'', ''a (3).txt'']" unfolding r by code_simp
  have p2: "name_limit Stat [''d'', ''a (2).txt''] = None" by code_simp
  have p3: "name_limit Stat [''d'', ''a (3).txt''] = None" by code_simp
  have e2: "exists ?fs [''d'', ''a (2).txt'']" by code_simp
  have e3: "\<not> exists ?fs [''d'', ''a (3).txt'']" by code_simp
  from spec p h
  obtain k where k: "2 \<le> k"
    "\<forall>j. 2 \<le> j \<and> j < k \<longrightarrow> name_limit Stat (?r j) = None \<and> exists ?fs (?r j)"
    "case name_limit Stat (?r k) of
       None \<Rightarrow> \<not> exists ?fs (?r k) \<and> ?res = Inr (?r k)
     | Some x \<Rightarrow> ?res = Inl x"
    by blast
  have "k \<noteq> 2" using k(3) r2 e2 p2 by auto
  moreover have "\<not> 3 < k"
  proof
    assume "3 < k"
    then have "exists ?fs (?r 3)" using k(2) [rule_format, of 3] by simp
    with r3 e3 show False by simp
  qed
  ultimately have "k = 3" using k(1) by arith
  with k(3) r3 p3 have "?res = Inr [''d'', ''a (3).txt'']" by simp
  with p h parts show ?thesis by simp
qed

text \<open>
  C9, as the claim states it, fails in its last part: \<open>safe_destination\<close> has a failure
  mode. With \<open>aaa...a.txt\<close> of 255 bytes present, the existence test of the first renamed
  candidate raises \<open>OSError\<close>.
\<close>

theorem safe_destination_raises_counterexample:
  "exists [([], Dir), ([''d''], Dir), ([''d'', replicate 251 CHR ''a'' @ ''.txt''], File [])]
     (join [''d''] (replicate 251 CHR ''a'' @ ''.txt'')) \<and>
   safe_destination_on name_limit
     [([], Dir), ([''d''], Dir), ([''d'', replicate 251 CHR ''a'' @ ''.txt''], File [])]
     [''d''] (replicate 251 CHR ''a'' @ ''.txt'')
     = Inl (OSError [''d'', replicate 251 CHR ''a'' @ '' (2).txt''])"
  by code_simp

text \<open>
  C9 (amended): the renamed candidates are pairwise distinct across the values of \<open>k\<close>,
  so among the candidates for \<open>k = 2, ..., length fs + 2\<close> one does not exist, and the
  search ends there at the latest: \<open>safe_destination\<close> always comes to an end. It ends
  either with one of the first \<open>length fs + 2\<close> candidates, which does not exist and whose
  test the platform answered, or with the error of an existence test that the platform
  refused on one of these candidates; this is its only failure mode. When the platform
  refuses none of these tests, it returns a path.
\<close>

theorem safe_destination_on_terminates:
  "(renamed dst_folder (stem filename) (suffix filename) j
      = renamed dst_folder (stem filename) (suffix filename) k \<longleftrightarrow> j = k) \<and>
   (\<exists>k. 2 \<le> k \<and> k \<le> length fs + 2 \<and>
        \<not> exists fs (renamed dst_folder (stem filename) (suffix filename) k)) \<and>
   (case safe_destination_on plat fs dst_folder filename of
      Inr p \<Rightarrow>
        p \<in> set (join dst_folder filename
                 # map (renamed dst_folder (stem filename) (suffix filename)) [2..<length fs + 3]) \<and>
        \<not> exists fs p \<and> plat Stat p = None
    | Inl x \<Rightarrow>
        (\<exists>p \<in> set (join dst_folder filename
                 # map (renamed dst_folder (stem filename) (suffix filename)) [2..<length fs + 3]).
           plat Stat p = Some x)) \<and>
   ((\<forall>p \<in> set (join dst_folder filename
                 # map (renamed dst_folder (stem filename) (suffix filename)) [2..<length fs + 3]).
       plat Stat p = None) \<longrightarrow>
    (\<exists>p. safe_destination_on plat fs dst_folder filename = Inr p))"
proof -
  let ?r = "renamed dst_folder (stem filename) (suffix filename)"
  let ?c = "join dst_folder filename"
  let ?res = "safe_destination_on plat fs dst_folder filename"
  let ?cands = "?c # map ?r [2..<length fs + 3]"
  obtain m where m: "2 \<le> m" "m \<le> length fs + 2" "\<not> exists fs (?r m)"
    using free_candidate [of 2 fs dst_folder "stem filename" "suffix filename"] by auto
  have res: "?res = sd_while_on plat fs dst_folder (stem filename) (suffix filename) ?c 2"
    by (simp add: safe_destination_on_def)
  have first: "?c \<in> set ?cands" by simp
  have later: "?r i \<in> set ?cands" if "2 \<le> i" "i < length fs + 3" for i
  proof -
    from that have "i \<in> set [2..<length fs + 3]" by simp
    then have "?r i \<in> ?r ` set [2..<length fs + 3]" by (rule imageI)
    then have "?r i \<in> set (map ?r [2..<length fs + 3])" by (simp only: set_map)
    then show ?thesis by (simp only: list.set insert_iff) simp
  qed
  have bound: "i < length fs + 3"
    if "\<forall>n. 2 \<le> n \<and> n < i \<longrightarrow> plat Stat (?r n) = None \<and> exists fs (?r n)" for i
  proof -
    have "\<not> m < i" using that m(1,3) by blast
    then show ?thesis using m(2) by simp
  qed
  have main: "case ?res of
      Inr p \<Rightarrow> p \<in> set ?cands \<and> \<not> exists fs p \<and> plat Stat p = None
    | Inl x \<Rightarrow> (\<exists>p \<in> set ?cands. plat Stat p = Some x)"
  proof (cases rule: sd_while_on_cases [of plat ?c fs dst_folder "stem filename" "suffix filename" 2])
    case (refused x)
    from refused(2) have "?res = Inl x" by (simp only: res)
    moreover have "\<exists>p \<in> set ?cands. plat Stat p = Some x"
      using first refused(1) by (rule bexI [rotated])
    ultimately show ?thesis by (simp only: sum.case simp_thms)
  next
    case free
    from free(3) have "?res = Inr ?c" by (simp only: res)
    moreover have "?c \<in> set ?cands \<and> \<not> exists fs ?c \<and> plat Stat ?c = None"
      using first free(1,2) by (intro conjI)
    ultimately show ?thesis by (simp only: sum.case simp_thms)
  next
    case (found i)
    from found(5) have "?res = Inr (?r i)" by (simp only: res)
    moreover have "?r i \<in> set ?cands \<and> \<not> exists fs (?r i) \<and> plat Stat (?r i) = None"
      using later [OF found(1) bound [OF found(2)]] found(3,4) by (intro conjI)
    ultimately show ?thesis by (simp only: sum.case simp_thms)
  next
    case (raised i x)
    from raised(4) have "?res = Inl x" by (simp only: res)
    moreover have "\<exists>p \<in> set ?cands. plat Stat p = Some x"
      using later [OF raised(1) bound [OF raised(2)]] raised(3) by (rule bexI [rotated])
    ultimately show ?thesis by (simp only: sum.case simp_thms)
  qed
  have ret: "(\<forall>p \<in> set ?cands. plat Stat p = None) \<longrightarrow> (\<exists>p. ?res = Inr p)"
  proof
    assume all: "\<forall>p \<in> set ?cands. plat Stat p = None"
    show "\<exists>p. ?res = Inr p"
    proof (cases ?res)
      case (Inl x)
      with main have "\<exists>p \<in> set ?cands. plat Stat p = Some x" by (simp only: sum.case simp_thms)
      then obtain p where "p \<in> set ?cands" "plat Stat p = Some x" ..
      with all show ?thesis by (metis option.distinct(1))
    next
      case (Inr p)
      then show ?thesis by (rule exI)
    qed
  qed
  have dist: "?r j = ?r k \<longleftrightarrow> j = k"
    by (rule renamed_eq_iff)
  have free: "\<exists>k. 2 \<le> k \<and> k \<le> length fs + 2 \<and> \<not> exists fs (?r k)"
    using m by (intro exI [of _ m] conjI)
  show ?thesis
    apply (intro conjI)
       apply (rule dist)
      apply (rule free)
     apply (rule main)
    apply (rule ret)
    done
qed

theorem safe_destination_on_terminates_witness:
  "list_all (\<lambda>p. name_limit Stat p = None)
     (join [''d''] ''a.txt''
      # map (renamed [''d''] (stem ''a.txt'') (suffix ''a.txt''))
          [2..<length [([''d''], Dir), ([''d'', ''a.txt''], File [])] + 3]) \<and>
   (\<exists>p. safe_destination_on name_limit [([''d''], Dir), ([''d'', ''a.txt''], File [])]
          [''d''] ''a.txt'' = Inr p)"
proof -
  let ?fs = "[([''d''], Dir), ([''d'', ''a.txt''], File [])]"
  let ?cands = "join [''d''] ''a.txt''
      # map (renamed [''d''] (stem ''a.txt'') (suffix ''a.txt'')) [2..<length ?fs + 3]"
  have l: "list_all (\<lambda>p. name_limit Stat p = None) ?cands"
    by code_simp
  then have h: "\<forall>p \<in> set ?cands. name_limit Stat p = None"
    by (simp only: list_all_iff)
  note t = safe_destination_on_terminates [of "[''d'']" "''a.txt''" 2 2 ?fs name_limit]
  from t have "(\<forall>p \<in> set ?cands. name_limit Stat p = None) \<longrightarrow>
    (\<exists>p. safe_destination_on name_limit ?fs [''d''] ''a.txt'' = Inr p)"
    by (elim conjE)
  with h have "\<exists>p. safe_destination_on name_limit ?fs [''d''] ''a.txt'' = Inr p"
    by (rule rev_mp)
  with l show ?thesis by (rule conjI)
qed

section \<open>Properties of the organize planner\<close>

text \<open>
  The plan of a run on a snapshot: the candidates of the listing, each with the destination
  that the classifier and the collision resolver give it on that snapshot.
\<close>

definition is_candidate :: "fs \<Rightarrow> path \<Rightarrow> bool \<Rightarrow> path \<Rightarrow> bool" where
  "is_candidate fs folder include_subdirs p =
     (\<not> is_dir fs p \<and> \<not> startswith (pname p) LOG_PREFIX \<and>
      (include_subdirs \<or> parent p = folder))"

definition planned :: "fs \<Rightarrow> path \<Rightarrow> path \<Rightarrow> path \<times> path" where
  "planned fs folder p =
     (p, safe_destination fs (join folder (pick_bucket (suffix (pname p)))) (pname p))"

definition plan :: "fs \<Rightarrow> path \<Rightarrow> bool \<Rightarrow> path list \<Rightarrow> (path \<times> path) list" where
  "plan fs folder include_subdirs ps =
     map (planned fs folder) (filter (is_candidate fs folder include_subdirs) ps)"

lemma organize_loop_dry:
  "organize_loop folder True include_subdirs ps (fs, log_f, n, out)
     = (None, (fs, log_f, n + length (plan fs folder include_subdirs ps),
               out @ map (\<lambda>(src, dst). DryRunMove src dst) (plan fs folder include_subdirs ps)))"
proof (induction ps arbitrary: n out)
  case Nil
  show ?case by (simp add: plan_def)
next
  case (Cons p ps)
  show ?case
  proof (cases "is_candidate fs folder include_subdirs p")
    case False
    then have "organize_step folder True include_subdirs p (fs, log_f, n, out)
                 = (None, (fs, log_f, n, out))"
      by (auto simp: is_candidate_def)
    with False show ?thesis using Cons.IH [of n out] by (simp add: plan_def)
  next
    case True
    then have "organize_step folder True include_subdirs p (fs, log_f, n, out)
                 = (None, (fs, log_f, n + 1, out @ [DryRunMove p (snd (planned fs folder p))]))"
      by (auto simp: is_candidate_def planned_def move_file_def Let_def)
    with True show ?thesis
      using Cons.IH [of "n + 1" "out @ [DryRunMove p (snd (planned fs folder p))]"]
      by (simp add: plan_def planned_def)
  qed
qed

text \<open>
  C5: a dry run of \<open>organize\<close> leaves the filesystem as it found it, whatever the folder
  and the mode: nothing is moved, no directory and no log file is created.
\<close>

theorem organize_dry_run_unchanged:
  "snd (snd (organize fs folder True include_subdirs ts)) = fs"
proof (cases "is_dir fs folder")
  case False
  then show ?thesis by (simp add: organize_def)
next
  case True
  then show ?thesis by (simp add: organize_def organize_loop_dry close_log_def Let_def)
qed

text \<open>
  C8, as the claim states it, fails for \<open>undo\<close>: a log path that is a directory is not an
  existing file, but \<open>exists()\<close> answers yes, and opening it raises \<open>IsADirectoryError\<close>;
  nothing is reported and the exit status is not the one of a usage error.
\<close>

theorem undo_directory_counterexample:
  "is_dir [([], Dir), ([''r''], Dir), ([''r'', ''logs''], Dir)] [''r'', ''logs''] \<and>
   undo_on name_limit [] [([], Dir), ([''r''], Dir), ([''r'', ''logs''], Dir)] [''r'', ''logs''] False
     = ([], Raised (IsADirectoryError [''r'', ''logs'']),
        [([], Dir), ([''r''], Dir), ([''r'', ''logs''], Dir)])"
  by code_simp

text \<open>
  C8 (amended): when the platform answers the test and the folder is not an existing
  directory, \<open>organize\<close> prints "not a directory" and exits with status 1, and the
  filesystem is untouched: no log file has been created. When nothing exists at the log
  path, \<open>undo\<close> prints "log not found" and exits with status 1, and the filesystem is
  untouched. When the platform refuses the test of the folder or of the log path, the error
  of the test is raised, and when a directory sits at the log path, opening it raises; in
  these cases nothing is printed, and the filesystem is untouched as well.
\<close>

theorem usage_errors_on:
  "(plat Stat folder = None \<and> \<not> is_dir fs folder \<longrightarrow>
      organize_on plat fs folder dry_run include_subdirs ts
        = ([NotADirectory folder], Exit 1, fs)) \<and>
   (\<forall>e. plat Stat folder = Some e \<longrightarrow>
      organize_on plat fs folder dry_run include_subdirs ts = ([], Raised e, fs)) \<and>
   (plat Stat log_file = None \<and> \<not> exists fs log_file \<longrightarrow>
      undo_on plat cwd fs log_file dry_run = ([LogNotFound log_file], Exit 1, fs)) \<and>
   (\<forall>e. plat Stat log_file = Some e \<longrightarrow>
      undo_on plat cwd fs log_file dry_run = ([], Raised e, fs)) \<and>
   (plat Stat log_file = None \<and> is_dir fs log_file \<longrightarrow>
      undo_on plat cwd fs log_file dry_run
        = ([], Raised (case plat OpenRead log_file of
                         Some e \<Rightarrow> e | None \<Rightarrow> IsADirectoryError log_file), fs))"
proof -
  have a: "plat Stat folder = None \<and> \<not> is_dir fs folder \<longrightarrow>
      organize_on plat fs folder dry_run include_subdirs ts
        = ([NotADirectory folder], Exit 1, fs)"
    by (simp add: organize_on_def is_dir_on_def)
  have b: "\<forall>e. plat Stat folder = Some e \<longrightarrow>
      organize_on plat fs folder dry_run include_subdirs ts = ([], Raised e, fs)"
    by (simp add: organize_on_def is_dir_on_def)
  have c: "plat Stat log_file = None \<and> \<not> exists fs log_file \<longrightarrow>
      undo_on plat cwd fs log_file dry_run = ([LogNotFound log_file], Exit 1, fs)"
    by (simp add: undo_on_def exists_on_def)
  have d: "\<forall>e. plat Stat log_file = Some e \<longrightarrow>
      undo_on plat cwd fs log_file dry_run = ([], Raised e, fs)"
    by (simp add: undo_on_def exists_on_def)
  have e: "plat Stat log_file = None \<and> is_dir fs log_file \<longrightarrow>
      undo_on plat cwd fs log_file dry_run
        = ([], Raised (case plat OpenRead log_file of
                         Some e \<Rightarrow> e | None \<Rightarrow> IsADirectoryError log_file), fs)"
    by (auto simp: undo_on_def exists_on_def read_on_def is_dir_def exists_def
        split: option.splits)
  show ?thesis
    apply (intro conjI)
        apply (rule a)
       apply (rule b)
      apply (rule c)
     apply (rule d)
    apply (rule e)
    done
qed

theorem usage_errors_on_witness:
  "(name_limit Stat [''r'', ''f''] = None \<and>
    \<not> is_dir [([], Dir), ([''r''], Dir), ([''r'', ''f''], File [])] [''r'', ''f''] \<and>
    organize_on name_limit [([], Dir), ([''r''], Dir), ([''r'', ''f''], File [])] [''r'', ''f'']
        False False ''20250101_120000''
      = ([NotADirectory [''r'', ''f'']], Exit 1,
         [([], Dir), ([''r''], Dir), ([''r'', ''f''], File [])])) \<and>
   (name_limit Stat [''r'', ''log.txt''] = None \<and>
    \<not> exists [([], Dir), ([''r''], Dir), ([''r'', ''f''], File [])] [''r'', ''log.txt''] \<and>
    undo_on name_limit [] [([], Dir), ([''r''], Dir), ([''r'', ''f''], File [])]
        [''r'', ''log.txt''] False
      = ([LogNotFound [''r'', ''log.txt'']], Exit 1,
         [([], Dir), ([''r''], Dir), ([''r'', ''f''], File [])])) \<and>
   (name_limit Stat [replicate 256 CHR ''a''] = Some (OSError [replicate 256 CHR ''a'']) \<and>
    organize_on name_limit [([], Dir), ([''r''], Dir), ([''r'', ''f''], File [])]
        [replicate 256 CHR ''a''] False False ''20250101_120000''
      = ([], Raised (OSError [replicate 256 CHR ''a'']),
         [([], Dir), ([''r''], Dir), ([''r'', ''f''], File [])]))"
proof -
  let ?fs = "[([], Dir), ([''r''], Dir), ([''r'', ''f''], File [])]"
  have s1: "name_limit Stat [''r'', ''f''] = None" by code_simp
  have a: "\<not> is_dir ?fs [''r'', ''f'']" by (simp add: is_dir_def)
  have s2: "name_limit Stat [''r'', ''log.txt''] = None" by code_simp
  have b: "\<not> exists ?fs [''r'', ''log.txt'']" by (simp add: exists_def)
  have s3: "name_limit Stat [replicate 256 CHR ''a''] = Some (OSError [replicate 256 CHR ''a''])"
    by code_simp
  note t1 = usage_errors_on [where plat = name_limit and fs = ?fs and folder = "[''r'', ''f'']"
      and dry_run = False and include_subdirs = False and ts = "''20250101_120000''"
      and log_file = "[''r'', ''log.txt'']" and cwd = "[]"]
  note t2 = usage_errors_on [where plat = name_limit and fs = ?fs
      and folder = "[replicate 256 CHR ''a'']"
      and dry_run = False and include_subdirs = False and ts = "''20250101_120000''"
      and log_file = "[''r'', ''log.txt'']" and cwd = "[]"]
  from t1 s1 a have r1: "organize_on name_limit ?fs [''r'', ''f''] False False ''20250101_120000''
      = ([NotADirectory [''r'', ''f'']], Exit 1, ?fs)" by blast
  from t1 s2 b have r2: "undo_on name_limit [] ?fs [''r'', ''log.txt''] False
      = ([LogNotFound [''r'', ''log.txt'']], Exit 1, ?fs)" by blast
  from t2 s3 have r3: "organize_on name_limit ?fs [replicate 256 CHR ''a''] False False
      ''20250101_120000'' = ([], Raised (OSError [replicate 256 CHR ''a'']), ?fs)" by blast
  from s1 a r1 s2 b r2 s3 r3 show ?thesis by (intro conjI)
qed

section \<open>Properties of the undo engine\<close>






section \<open>What the primitives do to the table\<close>

lemma map_of_filter_keys:
  "map_of (filter (\<lambda>(q, n). P q) fs) q = (if P q then map_of fs q else None)"
  by (induction fs) auto

lemma map_of_snoc:
  "map_of (fs @ [(p, v)]) q =
     (if map_of fs q = None then (if q = p then Some v else None) else map_of fs q)"
  by (auto simp: map_add_def split: option.splits)

declare map_of_append [simp del]

lemma is_dir_exists: "is_dir fs p \<Longrightarrow> exists fs p"
  by (simp add: is_dir_def exists_def)

lemma os_mkdir_Inr:
  "os_mkdir fs p = Inr fs' \<longleftrightarrow>
     p \<noteq> [] \<and> is_dir fs (parent p) \<and> \<not> exists fs p \<and> fs' = fs @ [(p, Dir)]"
  by (auto simp: os_mkdir_def is_dir_exists)

lemma ensure_dir_is_dir: "is_dir fs p \<Longrightarrow> ensure_dir fs p = (None, fs)"
  by (subst ensure_dir.simps) (simp add: os_mkdir_def is_dir_exists)

lemma ensure_dir_file:
  "exists fs p \<Longrightarrow> \<not> is_dir fs p \<Longrightarrow> ensure_dir fs p = (Some (FileExistsError p), fs)"
  by (subst ensure_dir.simps) (simp add: os_mkdir_def)

lemma ensure_dir_new:
  "p \<noteq> [] \<Longrightarrow> is_dir fs (parent p) \<Longrightarrow> \<not> exists fs p \<Longrightarrow>
     ensure_dir fs p = (None, fs @ [(p, Dir)])"
  by (subst ensure_dir.simps) (simp add: os_mkdir_def is_dir_exists)

text \<open>\<open>ensure_dir\<close> only adds directories, at paths that lead to its argument.\<close>

definition grows :: "path \<Rightarrow> fs \<Rightarrow> fs \<Rightarrow> bool" where
  "grows p fs fs1 =
     (\<forall>q. map_of fs1 q = map_of fs q \<or>
          (map_of fs q = None \<and> map_of fs1 q = Some Dir \<and> (\<exists>r. p = q @ r)))"

lemma grows_refl: "grows p fs fs"
  by (simp add: grows_def)

lemma grows_snoc: "\<not> exists fs p \<Longrightarrow> grows p fs (fs @ [(p, Dir)])"
  by (auto simp: grows_def map_of_snoc exists_def)

lemma grows_trans: "grows p fs fs1 \<Longrightarrow> grows p fs1 fs2 \<Longrightarrow> grows p fs fs2"
  unfolding grows_def
proof (intro allI)
  fix q
  assume a: "\<forall>q. map_of fs1 q = map_of fs q \<or>
          (map_of fs q = None \<and> map_of fs1 q = Some Dir \<and> (\<exists>r. p = q @ r))"
    and b: "\<forall>q. map_of fs2 q = map_of fs1 q \<or>
          (map_of fs1 q = None \<and> map_of fs2 q = Some Dir \<and> (\<exists>r. p = q @ r))"
  from a [rule_format, of q] b [rule_format, of q]
  show "map_of fs2 q = map_of fs q \<or>
          (map_of fs q = None \<and> map_of fs2 q = Some Dir \<and> (\<exists>r. p = q @ r))"
    by auto
qed

lemma grows_parent: "p \<noteq> [] \<Longrightarrow> grows (parent p) fs fs1 \<Longrightarrow> grows p fs fs1"
  unfolding grows_def parent_def
proof (intro allI)
  fix q
  assume p: "p \<noteq> []"
    and a: "\<forall>q. map_of fs1 q = map_of fs q \<or>
          (map_of fs q = None \<and> map_of fs1 q = Some Dir \<and> (\<exists>r. butlast p = q @ r))"
  have "\<exists>r'. p = q @ r'" if "butlast p = q @ r" for r
  proof -
    have "p = butlast p @ [last p]" using p by simp
    with that have "p = q @ (r @ [last p])" by simp
    then show ?thesis by blast
  qed
  with a [rule_format, of q]
  show "map_of fs1 q = map_of fs q \<or>
          (map_of fs q = None \<and> map_of fs1 q = Some Dir \<and> (\<exists>r. p = q @ r))"
    by blast
qed

lemma mkdir_exist_ok_grows: "mkdir_exist_ok fs p = Inr fs2 \<Longrightarrow> grows p fs fs2"
  by (auto simp: mkdir_exist_ok_def os_mkdir_Inr grows_refl grows_snoc
      split: sum.splits error.splits if_splits)

lemma ensure_dir_grows: "ensure_dir fs p = (e, fs1) \<Longrightarrow> grows p fs fs1"
proof (induction fs p arbitrary: e fs1 rule: ensure_dir.induct)
  case (1 fs p)
  show ?case
  proof (cases "os_mkdir fs p")
    case (Inr fs')
    with "1.prems" have "fs1 = fs'" by (subst (asm) ensure_dir.simps) simp
    with Inr show ?thesis by (simp add: os_mkdir_Inr grows_snoc)
  next
    case (Inl err)
    show ?thesis
    proof (cases "\<exists>q. err = FileNotFoundError q")
      case False
      with Inl "1.prems" have "fs1 = fs"
        by (subst (asm) ensure_dir.simps) (cases err; simp split: if_splits)
      then show ?thesis by (simp add: grows_refl)
    next
      case True
      then obtain q where err: "err = FileNotFoundError q" by blast
      show ?thesis
      proof (cases "parent p = p")
        case True
        with Inl err "1.prems" have "fs1 = fs" by (subst (asm) ensure_dir.simps) simp
        then show ?thesis by (simp add: grows_refl)
      next
        case False
        then have p: "p \<noteq> []" by (auto simp: parent_def)
        obtain e' fsa where rec: "ensure_dir fs (parent p) = (e', fsa)" by (metis prod.exhaust)
        have ga: "grows p fs fsa"
          using "1.IH" [OF Inl err False rec] p by (rule grows_parent [rotated])
        show ?thesis
        proof (cases e')
          case (Some x)
          with Inl err False rec "1.prems" have "fs1 = fsa"
            by (subst (asm) ensure_dir.simps) simp
          with ga show ?thesis by simp
        next
          case None
          show ?thesis
          proof (cases "mkdir_exist_ok fsa p")
            case (Inl x)
            with None \<open>os_mkdir fs p = Inl err\<close> err False rec "1.prems" have "fs1 = fsa"
              by (subst (asm) ensure_dir.simps) simp
            with ga show ?thesis by simp
          next
            case (Inr fsb)
            with None \<open>os_mkdir fs p = Inl err\<close> err False rec "1.prems" have "fs1 = fsb"
              by (subst (asm) ensure_dir.simps) simp
            with ga mkdir_exist_ok_grows [OF Inr] show ?thesis by (auto intro: grows_trans)
          qed
        qed
      qed
    qed
  qed
qed

lemma shutil_move_file:
  "map_of fs src = Some (File text) \<Longrightarrow> \<not> exists fs dst \<Longrightarrow>
     shutil_move fs src dst =
       (if dst = [] then Inl (OSError dst)
        else if \<not> exists fs (parent dst) then Inl (FileNotFoundError dst)
        else if \<not> is_dir fs (parent dst) then Inl (NotADirectoryError dst)
        else Inr (filter (\<lambda>(q, n). q \<noteq> src \<and> q \<noteq> dst) fs @ [(dst, File text)]))"
  by (auto simp: shutil_move_def os_rename_def is_dir_def exists_def)

lemma safe_destination_free: "\<not> exists fs (safe_destination fs d f)"
  using sd_while_spec [of fs "join d f" d "stem f" "suffix f" 2]
  by (auto simp: safe_destination_def)

lemma ensure_dir_keeps:
  "ensure_dir fs p = (e, fs1) \<Longrightarrow> exists fs q \<Longrightarrow> map_of fs1 q = map_of fs q"
  using ensure_dir_grows [of fs p e fs1] by (auto simp: grows_def exists_def)

lemma ensure_parent_free:
  assumes "ensure_dir fs (parent t) = (None, fs1)" and "\<not> exists fs t"
  shows "\<not> exists fs1 t"
proof
  assume ex: "exists fs1 t"
  from ensure_dir_grows [OF assms(1)] assms(2) ex
  obtain r where r: "parent t = t @ r"
    by (auto simp: grows_def exists_def dest: spec [of _ t])
  then have "length (butlast t) = length t + length r" by (simp add: parent_def)
  then have "t = []" by (cases t rule: rev_cases) simp_all
  with assms show False
    by (subst (asm) ensure_dir.simps) (simp add: os_mkdir_def parent_def)
qed

section \<open>The restore target when the original path is taken\<close>

text \<open>
  C2, as the claim states it, fails: the collision resolver is given the file name of the
  moved destination, not the file name of the original source. Here \<open>a.jpg\<close> was moved to
  \<open>images/a (3).jpg\<close> and a new \<open>a.jpg\<close> has appeared since: the file comes back as
  \<open>a (3).jpg\<close>, while the resolver applied to the original name gives \<open>a (2).jpg\<close>.
\<close>

theorem undo_target_counterexample:
  "exists [([], Dir), ([''r''], Dir),
           ([''r'', ''_organize_log_20250101_120000.txt''],
            File ''/r/a.jpg||/r/images/a (3).jpg\<newline>''),
           ([''r'', ''images''], Dir), ([''r'', ''images'', ''a (3).jpg''], File ''old''),
           ([''r'', ''a.jpg''], File ''new'')] [''r'', ''images'', ''a (3).jpg''] \<and>
   exists [([], Dir), ([''r''], Dir),
           ([''r'', ''_organize_log_20250101_120000.txt''],
            File ''/r/a.jpg||/r/images/a (3).jpg\<newline>''),
           ([''r'', ''images''], Dir), ([''r'', ''images'', ''a (3).jpg''], File ''old''),
           ([''r'', ''a.jpg''], File ''new'')] [''r'', ''a.jpg''] \<and>
   fst (undo [] [([], Dir), ([''r''], Dir),
                 ([''r'', ''_organize_log_20250101_120000.txt''],
                  File ''/r/a.jpg||/r/images/a (3).jpg\<newline>''),
                 ([''r'', ''images''], Dir), ([''r'', ''images'', ''a (3).jpg''], File ''old''),
                 ([''r'', ''a.jpg''], File ''new'')]
          [''r'', ''_organize_log_20250101_120000.txt''] False)
     = [Undid [''r'', ''images'', ''a (3).jpg''] [''r'', ''a (3).jpg'']] \<and>
   safe_destination [([], Dir), ([''r''], Dir),
                 ([''r'', ''_organize_log_20250101_120000.txt''],
                  File ''/r/a.jpg||/r/images/a (3).jpg\<newline>''),
                 ([''r'', ''images''], Dir), ([''r'', ''images'', ''a (3).jpg''], File ''old''),
                 ([''r'', ''a.jpg''], File ''new'')]
       (parent [''r'', ''a.jpg'']) (pname [''r'', ''a.jpg''])
     = [''r'', ''a (2).jpg'']"
  by code_simp

text \<open>
  C2 (amended): for every record whose moved destination exists while the original source
  exists too, the restore target is the collision resolver applied to the parent folder of
  the original source and the file name of the moved destination. That target does not
  exist, so nothing is overwritten: a dry run reports it, and a real run that moves a
  regular file puts it at the target and leaves what occupies the original path as it is.
\<close>

theorem undo_collision_target:
  assumes "exists fs dst" and "exists fs src"
  shows "\<not> exists fs (safe_destination fs (parent src) (pname dst)) \<and>
         undo_step True (src, dst) (fs, out)
           = (None, (fs, out @ [DryRunUndo dst (safe_destination fs (parent src) (pname dst))])) \<and>
         (\<forall>fs' out'. undo_step False (src, dst) (fs, out) = (None, (fs', out')) \<longrightarrow>
            out' = out @ [Undid dst (safe_destination fs (parent src) (pname dst))] \<and>
            (\<forall>text. map_of fs dst = Some (File text) \<and> src \<noteq> dst \<longrightarrow>
               map_of fs' (safe_destination fs (parent src) (pname dst)) = Some (File text) \<and>
               map_of fs' dst = None \<and> map_of fs' src = map_of fs src))"
proof -
  let ?t = "safe_destination fs (parent src) (pname dst)"
  have free: "\<not> exists fs ?t" by (rule safe_destination_free)
  have dry: "undo_step True (src, dst) (fs, out) = (None, (fs, out @ [DryRunUndo dst ?t]))"
    using assms by (simp add: Let_def)
  have real: "out' = out @ [Undid dst ?t] \<and>
            (\<forall>text. map_of fs dst = Some (File text) \<and> src \<noteq> dst \<longrightarrow>
               map_of fs' ?t = Some (File text) \<and> map_of fs' dst = None \<and>
               map_of fs' src = map_of fs src)"
    if step: "undo_step False (src, dst) (fs, out) = (None, (fs', out'))" for fs' out'
  proof -
    obtain e1 fs1 where ed: "ensure_dir fs (parent ?t) = (e1, fs1)" by (metis prod.exhaust)
    from step ed assms have e1: "e1 = None" by (auto simp: Let_def split: option.splits)
    from step ed e1 assms obtain fs2 where mv: "shutil_move fs1 dst ?t = Inr fs2"
      and res: "fs' = fs2" "out' = out @ [Undid dst ?t]"
      by (auto simp: Let_def split: sum.splits)
    have ksrc: "map_of fs1 src = map_of fs src" using ed assms(2) by (rule ensure_dir_keeps)
    have kdst: "map_of fs1 dst = map_of fs dst" using ed assms(1) by (rule ensure_dir_keeps)
    have free1: "\<not> exists fs1 ?t" using ed [unfolded e1] free by (rule ensure_parent_free)
    have "map_of fs' ?t = Some (File body) \<and> map_of fs' dst = None \<and>
          map_of fs' src = map_of fs src"
      if f: "map_of fs dst = Some (File body)" and ne: "src \<noteq> dst" for body
    proof -
      have t_src: "?t \<noteq> src" using free assms(2) by auto
      have t_dst: "?t \<noteq> dst" using free assms(1) by auto
      from f kdst have "map_of fs1 dst = Some (File body)" by simp
      from shutil_move_file [OF this free1] mv
      have "fs2 = filter (\<lambda>(q, n). q \<noteq> dst \<and> q \<noteq> ?t) fs1 @ [(?t, File body)]"
        by (auto split: if_splits)
      with res(1) ksrc t_src t_dst ne show ?thesis
        by (simp add: map_of_snoc map_of_filter_keys)
    qed
    with res(2) show ?thesis by blast
  qed
  from free dry real show ?thesis by blast
qed

theorem undo_collision_target_witness:
  "undo_step False ([''r'', ''a.jpg''], [''r'', ''images'', ''a (3).jpg''])
     ([([], Dir), ([''r''], Dir), ([''r'', ''images''], Dir),
       ([''r'', ''images'', ''a (3).jpg''], File ''old''), ([''r'', ''a.jpg''], File ''new'')], [])
   = (None,
      ([([], Dir), ([''r''], Dir), ([''r'', ''images''], Dir),
        ([''r'', ''a.jpg''], File ''new''), ([''r'', ''a (3).jpg''], File ''old'')],
       [Undid [''r'', ''images'', ''a (3).jpg''] [''r'', ''a (3).jpg'']])) \<and>
   map_of [([], Dir), ([''r''], Dir), ([''r'', ''images''], Dir),
           ([''r'', ''a.jpg''], File ''new''), ([''r'', ''a (3).jpg''], File ''old'')]
      [''r'', ''a.jpg'']
   = map_of [([], Dir), ([''r''], Dir), ([''r'', ''images''], Dir),
       ([''r'', ''images'', ''a (3).jpg''], File ''old''), ([''r'', ''a.jpg''], File ''new'')]
      [''r'', ''a.jpg'']"
proof -
  let ?fs = "[([], Dir), ([''r''], Dir), ([''r'', ''images''], Dir),
       ([''r'', ''images'', ''a (3).jpg''], File ''old''), ([''r'', ''a.jpg''], File ''new'')]"
  let ?fs' = "[([], Dir), ([''r''], Dir), ([''r'', ''images''], Dir),
        ([''r'', ''a.jpg''], File ''new''), ([''r'', ''a (3).jpg''], File ''old'')]"
  let ?src = "[''r'', ''a.jpg'']"
  let ?dst = "[''r'', ''images'', ''a (3).jpg'']"
  have h1: "exists ?fs ?dst" by code_simp
  have h2: "exists ?fs ?src" by code_simp
  have s: "undo_step False (?src, ?dst) (?fs, [])
             = (None, (?fs', [Undid ?dst [''r'', ''a (3).jpg'']]))" by code_simp
  have f: "map_of ?fs ?dst = Some (File ''old'') \<and> ?src \<noteq> ?dst" by simp
  from undo_collision_target [OF h1 h2, of "[]"] s f
  have "map_of ?fs' ?src = map_of ?fs ?src" by blast
  with s show ?thesis by blast
qed

section \<open>What a real run keeps\<close>

lemma set_content_keys: "map fst (set_content fs p c) = map fst fs"
  by (induction fs) (auto simp: set_content_def)

lemma map_of_set_content:
  "map_of (set_content fs p c) q =
     (if q = p \<and> map_of fs p \<noteq> None \<and> map_of fs p \<noteq> Some Dir then Some (File c)
      else map_of fs q)"
  by (induction fs) (auto simp: set_content_def)



lemma exists_set_content: "exists (set_content fs p c) q = exists fs q"
  by (simp add: exists_def map_of_set_content)

lemma is_dir_set_content: "is_dir (set_content fs p c) q = is_dir fs q"
  by (auto simp: is_dir_def map_of_set_content)




section \<open>The log file of a real run\<close>

lemma log_name_nonempty: "log_name ts \<noteq> []"
  by (simp add: log_name_def LOG_PREFIX_def)

lemma log_path_facts:
  "join folder (log_name ts) = folder @ [log_name ts]"
  "parent (join folder (log_name ts)) = folder"
  "pname (join folder (log_name ts)) = log_name ts"
  "startswith (log_name ts) LOG_PREFIX"
  using log_name_nonempty [of ts]
  by (simp_all add: join_def parent_def pname_def startswith_def log_name_def)

text \<open>The filesystem right after the log has been opened.\<close>

definition with_log :: "fs \<Rightarrow> path \<Rightarrow> fs" where
  "with_log fs lp = (if exists fs lp then set_content fs lp [] else fs @ [(lp, File [])])"

lemma open_w_log:
  "is_dir fs folder \<Longrightarrow> \<not> is_dir fs (join folder (log_name ts)) \<Longrightarrow>
     open_w fs (join folder (log_name ts)) = Inr (with_log fs (join folder (log_name ts)))"
  by (simp add: open_w_def with_log_def log_path_facts(2) is_dir_exists)

lemma map_of_with_log:
  "\<not> is_dir fs lp \<Longrightarrow>
     map_of (with_log fs lp) q = (if q = lp then Some (File []) else map_of fs q)"
  by (auto simp: with_log_def map_of_set_content map_of_snoc exists_def is_dir_def)

lemma is_dir_with_log: "\<not> is_dir fs lp \<Longrightarrow> is_dir (with_log fs lp) q = is_dir fs q"
  by (auto simp: is_dir_def map_of_with_log)

lemma set_content_key_set: "fst ` set (set_content fs p c) = fst ` set fs"
  by (simp only: set_map [symmetric] set_content_keys)

lemma keys_with_log: "set (keys (with_log fs lp)) \<subseteq> insert lp (set (keys fs))"
  by (auto simp: keys_def with_log_def set_content_key_set)






section \<open>Preview and execution\<close>

text \<open>The paths that \<open>safe_destination\<close> may probe.\<close>

definition cands :: "path \<Rightarrow> string \<Rightarrow> path set" where
  "cands d f = insert (join d f) (range (renamed d (stem f) (suffix f)))"

lemma sd_in_cands: "safe_destination fs d f \<in> cands d f"
  using sd_while_spec [of fs "join d f" d "stem f" "suffix f" 2]
  by (auto simp: safe_destination_def cands_def)

text \<open>
  A second filesystem in which every probed path that exists in the first one still exists,
  and in which the answer for the first one is free, gets the same answer.
\<close>

lemma sd_agree:
  assumes mono: "\<And>c. c \<in> cands d f \<Longrightarrow> exists fs c \<Longrightarrow> exists fs' c"
    and free: "\<not> exists fs' (safe_destination fs d f)"
  shows "safe_destination fs' d f = safe_destination fs d f"
proof -
  let ?r = "renamed d (stem f) (suffix f)"
  let ?c = "join d f"
  have rc: "?r k \<in> cands d f" for k by (simp add: cands_def)
  have cc: "?c \<in> cands d f" by (simp add: cands_def)
  have s: "safe_destination fs d f = sd_while fs d (stem f) (suffix f) ?c 2"
    and s': "safe_destination fs' d f = sd_while fs' d (stem f) (suffix f) ?c 2"
    by (simp_all add: safe_destination_def)
  show ?thesis
  proof (cases "exists fs ?c")
    case False
    with sd_while_spec [of fs ?c d "stem f" "suffix f" 2] s
    have r: "safe_destination fs d f = ?c" by auto
    with free have "\<not> exists fs' ?c" by simp
    with sd_while_spec [of fs' ?c d "stem f" "suffix f" 2] s' r show ?thesis by auto
  next
    case True
    with sd_while_spec [of fs ?c d "stem f" "suffix f" 2] s
    obtain j where j: "2 \<le> j" "safe_destination fs d f = ?r j" "\<not> exists fs (?r j)"
      "\<forall>i. 2 \<le> i \<and> i < j \<longrightarrow> exists fs (?r i)" by auto
    from True have "exists fs' ?c" by (rule mono [OF cc])
    with sd_while_spec [of fs' ?c d "stem f" "suffix f" 2] s'
    obtain k where k: "2 \<le> k" "safe_destination fs' d f = ?r k" "\<not> exists fs' (?r k)"
      "\<forall>i. 2 \<le> i \<and> i < k \<longrightarrow> exists fs' (?r i)" by auto
    have "\<not> k < j"
    proof
      assume "k < j"
      with j(4) k(1) have "exists fs (?r k)" by simp
      then have "exists fs' (?r k)" by (rule mono [OF rc])
      with k(3) show False by simp
    qed
    moreover have "\<not> j < k"
    proof
      assume "j < k"
      with k(4) j(1) have "exists fs' (?r j)" by simp
      with free j(2) show False by simp
    qed
    ultimately have "j = k" by simp
    with j(2) k(2) show ?thesis by simp
  qed
qed

lemma cands_deep:
  assumes "b \<noteq> []" and "f \<noteq> []" and "c \<in> cands (join folder b) f"
  shows "\<exists>x. c = folder @ [b, x]"
  using assms by (auto simp: cands_def join_def renamed_def)

lemma pick_bucket_nonempty: "pick_bucket ext \<noteq> []"
proof (cases "find_bucket CATEGORIES (lstrip_dot (lower ext))")
  case None
  then show ?thesis by (simp add: pick_bucket_def NOEXT_BUCKET_def OTHER_BUCKET_def)
next
  case (Some b)
  then have "b \<in> fst ` set CATEGORIES" by (rule find_bucket_in_table)
  then have "b \<noteq> []" by (auto simp: CATEGORIES_def)
  with Some show ?thesis by (simp add: pick_bucket_def NOEXT_BUCKET_def)
qed

lemma planned_deep:
  "pname p \<noteq> [] \<Longrightarrow> \<exists>x. snd (planned fs folder p) = folder @ [pick_bucket (suffix (pname p)), x]"
  using cands_deep [OF pick_bucket_nonempty _ sd_in_cands] by (simp add: planned_def)

text \<open>One round of a real run that moves its file, in a folder that is a directory.\<close>

lemma organize_step_moved:
  assumes dir: "is_dir cur folder"
    and cand: "is_candidate cur folder False p" and nm: "pname p \<noteq> []"
    and st: "organize_step folder False False p (cur, Some t, n, out) = (None, st')"
  shows "\<exists>body cur'. map_of cur p = Some (File body) \<and>
           (map_of cur (parent (snd (planned cur folder p))) = Some Dir \<or>
            map_of cur (parent (snd (planned cur folder p))) = None) \<and>
           st' = (cur', Some (t @ render p @ ''||'' @ render (snd (planned cur folder p)) @ [CHR 0x0A]),
                  n + 1, out @ [Moved p (snd (planned cur folder p))]) \<and>
           (\<forall>q. map_of cur' q =
                  (if q = snd (planned cur folder p) then Some (File body)
                   else if q = p then None
                   else if q = parent (snd (planned cur folder p)) then Some Dir
                   else map_of cur q))"
proof -
  let ?b = "pick_bucket (suffix (pname p))"
  let ?bd = "folder @ [?b]"
  let ?dst = "snd (planned cur folder p)"
  obtain x where dst: "?dst = folder @ [?b, x]" using planned_deep [OF nm] by blast
  have pd: "parent ?dst = ?bd" by (simp add: dst parent_def butlast_append)
  have free: "\<not> exists cur ?dst" by (simp add: planned_def safe_destination_free)
  have nd: "\<not> is_dir cur p" using cand by (simp add: is_candidate_def)
  have dstdef: "?dst = safe_destination cur (join folder ?b) (pname p)" by (simp add: planned_def)
  obtain e1 cur1 where ed: "ensure_dir cur ?bd = (e1, cur1)" by (metis prod.exhaust)
  from st cand have mv: "move_file cur p ?dst False (Some t) = (None, fst st', fst (snd st'), 
        drop (length out) (snd (snd (snd st'))))"
    and st1: "fst (snd (snd st')) = n + 1" "take (length out) (snd (snd (snd st'))) = out"
    unfolding dstdef
    by (auto simp: is_candidate_def Let_def split: option.splits prod.splits)
  from mv ed pd have e1: "e1 = None"
    by (auto simp: move_file_def split: option.splits sum.splits)
  from mv ed pd e1 obtain cur2 where sm: "shutil_move cur1 p ?dst = Inr cur2"
    and res: "fst st' = cur2"
      "fst (snd st') = Some (t @ render p @ ''||'' @ render ?dst @ [CHR 0x0A])"
      "drop (length out) (snd (snd (snd st'))) = [Moved p ?dst]"
    by (auto simp: move_file_def split: sum.splits)
  have bd: "(map_of cur ?bd = Some Dir \<or> map_of cur ?bd = None) \<and>
            (\<forall>q. map_of cur1 q = (if q = ?bd then Some Dir else map_of cur q))"
  proof (cases "exists cur ?bd")
    case False
    have "ensure_dir cur ?bd = (None, cur @ [(?bd, Dir)])"
      using False dir by (intro ensure_dir_new) (simp_all add: parent_def)
    with ed have "cur1 = cur @ [(?bd, Dir)]" by simp
    with False show ?thesis by (auto simp: map_of_snoc exists_def)
  next
    case True
    show ?thesis
    proof (cases "is_dir cur ?bd")
      case False
      with True ed e1 show ?thesis by (simp add: ensure_dir_file)
    next
      case d: True
      with ed have "cur1 = cur" by (simp add: ensure_dir_is_dir)
      with d show ?thesis by (auto simp: is_dir_def)
    qed
  qed
  have dne: "?dst \<noteq> ?bd" by (simp add: dst)
  have free1: "\<not> exists cur1 ?dst" using free bd dne by (simp add: exists_def)
  have nodir: "\<not> is_dir cur1 ?dst" using free1 by (auto dest: is_dir_exists)
  obtain body where body: "map_of cur1 p = Some (File body)"
  proof (cases "map_of cur1 p")
    case None
    then have "shutil_move cur1 p ?dst = Inl (FileNotFoundError p)"
      using nodir by (simp add: shutil_move_def os_rename_def)
    with sm show ?thesis by simp
  next
    case (Some nd1)
    show ?thesis
    proof (cases nd1)
      case (File c)
      with Some that show ?thesis by simp
    next
      case Dir
      with Some have d1: "map_of cur1 p = Some Dir" by simp
      with nd bd have "p = ?bd" by (auto simp: is_dir_def split: if_splits)
      then have "?dst = p @ [x]" by (simp add: dst)
      then have "below p ?dst" by (simp add: below_def)
      moreover have "p \<noteq> ?dst" using d1 free1 by (auto simp: exists_def)
      ultimately have "\<exists>err. shutil_move cur1 p ?dst = Inl err"
        using nodir d1 by (auto simp: shutil_move_def os_rename_def)
      with sm show ?thesis by auto
    qed
  qed
  have pbd: "p \<noteq> ?bd" using body bd by auto
  have b0: "map_of cur p = Some (File body)" using body bd pbd by simp
  from shutil_move_file [OF body free1] sm
  have c2: "cur2 = filter (\<lambda>(q, n). q \<noteq> p \<and> q \<noteq> ?dst) cur1 @ [(?dst, File body)]"
    by (auto split: if_splits)
  have m2: "\<forall>q. map_of cur2 q =
                  (if q = ?dst then Some (File body)
                   else if q = p then None
                   else if q = parent ?dst then Some Dir
                   else map_of cur q)"
    using bd by (auto simp: c2 pd map_of_snoc map_of_filter_keys)
  have "snd (snd (snd st')) = take (length out) (snd (snd (snd st'))) @ drop (length out) (snd (snd (snd st')))"
    by simp
  with st1(2) res(3) have o: "snd (snd (snd st')) = out @ [Moved p ?dst]" by simp
  have "st' = (cur2, Some (t @ render p @ ''||'' @ render ?dst @ [CHR 0x0A]), n + 1,
               out @ [Moved p ?dst])"
    using res(1,2) st1(1) o by (cases st') auto
  with b0 bd m2 pd show ?thesis by auto
qed

lemma organize_step_error:
  "organize_step folder False include_subdirs p (cur, lf, n, out) = (Some e, (cur', lf', n', out'))
     \<Longrightarrow> out' = out"
  by (auto simp: move_file_def Let_def split: if_splits option.splits prod.splits sum.splits)

lemma child_form: "p \<noteq> [] \<Longrightarrow> parent p = folder \<Longrightarrow> p = folder @ [pname p]"
  by (auto simp: parent_def pname_def)

text \<open>
  The real loop against a reference snapshot \<open>ref\<close>. \<open>D\<close> holds the destinations filled
  so far. Two levels below the folder, the current filesystem has what the snapshot has
  plus \<open>D\<close>; the entries still to come are as in the snapshot. Then, as long as the planned
  destinations are pairwise distinct, the loop moves along the plan of the snapshot.
\<close>

lemma real_follows_plan:
  assumes "organize_loop folder False False ps (cur, Some t, n, out) = (e, (cur', lf', n', out'))"
    and "is_dir cur folder"
    and "\<forall>b x. exists cur (folder @ [b, x]) \<longleftrightarrow> exists ref (folder @ [b, x]) \<or> folder @ [b, x] \<in> D"
    and "\<forall>p \<in> set ps. map_of cur p = map_of ref p \<and> exists ref p \<and> p \<noteq> [] \<and>
                        parent p = folder \<and> pname p \<noteq> []"
    and "distinct ps"
    and "distinct (map snd (plan ref folder False ps))"
    and "set (map snd (plan ref folder False ps)) \<inter> D = {}"
  shows "\<exists>j. j \<le> length (plan ref folder False ps) \<and>
             out' = out @ map (\<lambda>(src, dst). Moved src dst) (take j (plan ref folder False ps)) \<and>
             (e = None \<longrightarrow> j = length (plan ref folder False ps))"
  using assms
proof (induction ps arbitrary: cur D t n out)
  case Nil
  then show ?case by (simp add: plan_def)
next
  case (Cons p ps)
  note loop = Cons.prems(1) and dir = Cons.prems(2) and deep = Cons.prems(3)
    and ents = Cons.prems(4) and dps = Cons.prems(5) and dpl = Cons.prems(6)
    and disj = Cons.prems(7)
  from ents have p: "map_of cur p = map_of ref p" "exists ref p" "p \<noteq> []" "parent p = folder"
    "pname p \<noteq> []" by simp_all
  have pform: "p = folder @ [pname p]" using p(3,4) by (rule child_form)
  have candeq: "is_candidate cur folder False p = is_candidate ref folder False p"
    using p(1) by (simp add: is_candidate_def is_dir_def)
  have ents': "\<forall>p \<in> set ps. map_of cur p = map_of ref p \<and> exists ref p \<and> p \<noteq> [] \<and>
                        parent p = folder \<and> pname p \<noteq> []" using ents by simp
  have dps': "distinct ps" and pnot: "p \<notin> set ps" using dps by simp_all
  show ?case
  proof (cases "is_candidate ref folder False p")
    case False
    then have pl: "plan ref folder False (p # ps) = plan ref folder False ps"
      by (simp add: plan_def)
    from False candeq have "organize_step folder False False p (cur, Some t, n, out)
                              = (None, (cur, Some t, n, out))"
      by (auto simp: is_candidate_def)
    with loop have "organize_loop folder False False ps (cur, Some t, n, out)
                      = (e, (cur', lf', n', out'))" by simp
    from Cons.IH [OF this dir deep ents' dps'] dpl disj pl show ?thesis by simp
  next
    case True
    let ?b = "pick_bucket (suffix (pname p))"
    let ?dst = "snd (planned ref folder p)"
    have pl: "plan ref folder False (p # ps) = (p, ?dst) # plan ref folder False ps"
      using True by (simp add: plan_def planned_def)
    obtain x where dst: "?dst = folder @ [?b, x]" using planned_deep [OF p(5)] by blast
    have dstD: "?dst \<notin> D" using disj pl by auto
    have dstnew: "?dst \<notin> set (map snd (plan ref folder False ps))" using dpl pl by simp
    have same: "planned cur folder p = planned ref folder p"
    proof -
      have "safe_destination cur (join folder ?b) (pname p)
              = safe_destination ref (join folder ?b) (pname p)"
      proof (rule sd_agree)
        fix c
        assume "c \<in> cands (join folder ?b) (pname p)" and ex: "exists ref c"
        then obtain y where "c = folder @ [?b, y]"
          using cands_deep [OF pick_bucket_nonempty p(5)] by blast
        with ex deep show "exists cur c" by simp
      next
        have "\<not> exists ref ?dst" by (simp add: planned_def safe_destination_free)
        with dstD deep dst have "\<not> exists cur ?dst" by simp
        then show "\<not> exists cur (safe_destination ref (join folder ?b) (pname p))"
          by (simp add: planned_def)
      qed
      then show ?thesis by (simp add: planned_def)
    qed
    obtain e1 st1 where st: "organize_step folder False False p (cur, Some t, n, out) = (e1, st1)"
      by (metis prod.exhaust)
    show ?thesis
    proof (cases e1)
      case (Some err)
      obtain c1 l1 n1 o1 where st1: "st1 = (c1, l1, n1, o1)" by (metis prod.exhaust)
      have "o1 = out" using st unfolding Some st1 by (rule organize_step_error)
      moreover from loop st Some st1 have "e = Some err" "out' = o1" by simp_all
      ultimately show ?thesis by (intro exI [of _ 0]) simp
    next
      case None
      from True candeq have cand: "is_candidate cur folder False p" by simp
      note mvd = organize_step_moved [OF dir cand p(5) st [unfolded None], unfolded same]
      from mvd obtain body cur2 where
        bdir: "map_of cur (parent ?dst) = Some Dir \<or> map_of cur (parent ?dst) = None"
        and st1: "st1 = (cur2, Some (t @ render p @ ''||'' @ render ?dst @ [CHR 0x0A]), n + 1,
                         out @ [Moved p ?dst])"
        and m2: "\<forall>q. map_of cur2 q =
                  (if q = ?dst then Some (File body)
                   else if q = p then None
                   else if q = parent ?dst then Some Dir
                   else map_of cur q)"
        by blast
      have pd: "parent ?dst = folder @ [?b]" by (simp add: dst parent_def butlast_append)
      from loop st None st1
      have loop2: "organize_loop folder False False ps
                     (cur2, Some (t @ render p @ ''||'' @ render ?dst @ [CHR 0x0A]), n + 1,
                      out @ [Moved p ?dst]) = (e, (cur', lf', n', out'))" by simp
      have dir2: "is_dir cur2 folder"
      proof -
        have "folder \<noteq> ?dst" by (simp add: dst)
        moreover have "folder \<noteq> parent ?dst" by (simp add: pd)
        moreover have "folder \<noteq> p" using pform by (metis append_self_conv not_Cons_self2)
        ultimately have "map_of cur2 folder = map_of cur folder" using m2 by simp
        with dir show ?thesis by (simp add: is_dir_def)
      qed
      have deep2: "\<forall>b x. exists cur2 (folder @ [b, x]) \<longleftrightarrow>
                     exists ref (folder @ [b, x]) \<or> folder @ [b, x] \<in> insert ?dst D"
      proof (intro allI)
        fix b y
        let ?q = "folder @ [b, y]"
        have "?q \<noteq> parent ?dst" by (simp add: pd)
        moreover have "?q \<noteq> p" using pform
          by (metis append_eq_append_conv length_Cons list.size(3) n_not_Suc_n)
        ultimately have "map_of cur2 ?q = (if ?q = ?dst then Some (File body) else map_of cur ?q)"
          using m2 by simp
        then have "exists cur2 ?q \<longleftrightarrow> ?q = ?dst \<or> exists cur ?q" by (simp add: exists_def)
        with deep show "exists cur2 ?q \<longleftrightarrow> exists ref ?q \<or> ?q \<in> insert ?dst D" by auto
      qed
      have ents2: "\<forall>p' \<in> set ps. map_of cur2 p' = map_of ref p' \<and> exists ref p' \<and> p' \<noteq> [] \<and>
                        parent p' = folder \<and> pname p' \<noteq> []"
      proof
        fix p' assume in': "p' \<in> set ps"
        with ents' have q: "map_of cur p' = map_of ref p'" "exists ref p'" "p' \<noteq> []"
          "parent p' = folder" "pname p' \<noteq> []" by simp_all
        have qform: "p' = folder @ [pname p']" using q(3,4) by (rule child_form)
        have "p' \<noteq> p" using in' pnot by auto
        moreover have "p' \<noteq> ?dst" using qform dst
          by (metis append_eq_append_conv length_Cons list.size(3) n_not_Suc_n)
        moreover have "map_of cur p' = Some Dir" if "p' = parent ?dst"
          using that bdir q(1,2) by (auto simp: exists_def)
        ultimately have "map_of cur2 p' = map_of cur p'" using m2 by auto
        with q show "map_of cur2 p' = map_of ref p' \<and> exists ref p' \<and> p' \<noteq> [] \<and>
                        parent p' = folder \<and> pname p' \<noteq> []" by simp
      qed
      have dpl2: "distinct (map snd (plan ref folder False ps))" using dpl pl by simp
      have disj2: "set (map snd (plan ref folder False ps)) \<inter> insert ?dst D = {}"
        using disj pl dstnew by auto
      from Cons.IH [OF loop2 dir2 deep2 ents2 dps' dpl2 disj2]
      obtain j where j: "j \<le> length (plan ref folder False ps)"
        "out' = (out @ [Moved p ?dst]) @ map (\<lambda>(src, dst). Moved src dst) (take j (plan ref folder False ps))"
        "e = None \<longrightarrow> j = length (plan ref folder False ps)" by blast
      show ?thesis
        using j by (intro exI [of _ "Suc j"]) (simp add: pl)
    qed
  qed
qed

text \<open>The (source, destination) pairs that a run reports, in order.\<close>

fun moves_of :: "event list \<Rightarrow> (path \<times> path) list" where
  "moves_of [] = []"
| "moves_of (DryRunMove src dst # es) = (src, dst) # moves_of es"
| "moves_of (Moved src dst # es) = (src, dst) # moves_of es"
| "moves_of (e # es) = moves_of es"

text \<open>No entry of the table has an empty component: a directory listing has no empty name.\<close>

definition names_ok :: "fs \<Rightarrow> bool" where
  "names_ok fs = (\<forall>p \<in> set (keys fs). [] \<notin> set p)"

lemma moves_of_append: "moves_of (xs @ ys) = moves_of xs @ moves_of ys"
  by (induction xs rule: moves_of.induct) simp_all

lemma moves_of_dry: "moves_of (map (\<lambda>(src, dst). DryRunMove src dst) ms) = ms"
  by (induction ms) auto

lemma moves_of_real: "moves_of (map (\<lambda>(src, dst). Moved src dst) ms) = ms"
  by (induction ms) auto

lemma remdups_snoc_new: "x \<notin> set xs \<Longrightarrow> remdups (xs @ [x]) = remdups xs @ [x]"
  by (induction xs) auto

lemma keys_snoc_new: "\<not> exists fs lp \<Longrightarrow> keys (fs @ [(lp, v)]) = keys fs @ [lp]"
  by (simp add: keys_def exists_iff remdups_snoc_new)

lemma candidates_with_log:
  assumes "\<not> is_dir fs (join folder (log_name ts))"
  shows "filter (is_candidate (with_log fs (join folder (log_name ts))) folder False)
           (iterdir (with_log fs (join folder (log_name ts))) folder)
         = filter (is_candidate fs folder False) (iterdir fs folder)"
proof -
  let ?lp = "join folder (log_name ts)"
  have c: "is_candidate (with_log fs ?lp) folder False = is_candidate fs folder False"
    using assms by (auto simp: is_candidate_def is_dir_with_log fun_eq_iff)
  have nolog: "\<not> is_candidate fs folder False ?lp"
    by (simp add: is_candidate_def log_path_facts(3,4))
  show ?thesis
  proof (cases "exists fs ?lp")
    case True
    then have "keys (with_log fs ?lp) = keys fs"
      by (simp add: with_log_def keys_def set_content_keys)
    then show ?thesis by (simp add: c iterdir_def)
  next
    case False
    then have "keys (with_log fs ?lp) = keys fs @ [?lp]"
      by (simp add: with_log_def keys_snoc_new)
    then have "iterdir (with_log fs ?lp) folder = iterdir fs folder @ [?lp]"
      by (simp add: iterdir_def log_path_facts(2)) (simp add: log_path_facts(1))
    with nolog show ?thesis by (simp add: c)
  qed
qed

lemma planned_with_log:
  assumes nd: "\<not> is_dir fs (join folder (log_name ts))" and nm: "pname p \<noteq> []"
  shows "planned (with_log fs (join folder (log_name ts))) folder p = planned fs folder p"
proof -
  let ?lp = "join folder (log_name ts)"
  let ?b = "pick_bucket (suffix (pname p))"
  have "safe_destination (with_log fs ?lp) (join folder ?b) (pname p)
          = safe_destination fs (join folder ?b) (pname p)"
  proof (rule sd_agree)
    fix c assume "exists fs c"
    then show "exists (with_log fs ?lp) c" using nd by (simp add: exists_def map_of_with_log)
  next
    obtain x where x: "safe_destination fs (join folder ?b) (pname p) = folder @ [?b, x]"
      using cands_deep [OF pick_bucket_nonempty nm sd_in_cands] by blast
    have "folder @ [?b, x] \<noteq> ?lp" by (simp add: log_path_facts(1))
    then have "exists (with_log fs ?lp) (folder @ [?b, x]) = exists fs (folder @ [?b, x])"
      using nd by (simp add: exists_def map_of_with_log)
    with x safe_destination_free [of fs "join folder ?b" "pname p"]
    show "\<not> exists (with_log fs ?lp) (safe_destination fs (join folder ?b) (pname p))"
      by simp
  qed
  then show ?thesis by (simp add: planned_def)
qed

lemma iterdir_entry:
  "p \<in> set (iterdir fs folder) \<Longrightarrow> exists fs p \<and> p \<noteq> [] \<and> parent p = folder"
  by (auto simp: iterdir_def keys_def exists_iff)

lemma names_ok_pname:
  assumes "names_ok fs" and "p \<in> set (keys fs)" and "p \<noteq> []"
  shows "pname p \<noteq> []"
proof
  assume "pname p = []"
  with assms(3) have "last p = []" by (simp add: pname_def)
  with last_in_set [OF assms(3)] have "[] \<in> set p" by simp
  with assms(1,2) show False by (auto simp: names_ok_def)
qed

lemma plan_with_log:
  assumes nd: "\<not> is_dir fs (join folder (log_name ts))" and ok: "names_ok fs"
  shows "plan (with_log fs (join folder (log_name ts))) folder False
           (iterdir (with_log fs (join folder (log_name ts))) folder)
         = plan fs folder False (iterdir fs folder)"
proof -
  let ?fs0 = "with_log fs (join folder (log_name ts))"
  have "map (planned ?fs0 folder) (filter (is_candidate fs folder False) (iterdir fs folder))
        = map (planned fs folder) (filter (is_candidate fs folder False) (iterdir fs folder))"
  proof (rule map_cong [OF refl])
    fix p assume "p \<in> set (filter (is_candidate fs folder False) (iterdir fs folder))"
    then have "p \<in> set (keys fs)" "p \<noteq> []" by (auto simp: iterdir_def)
    with ok have "pname p \<noteq> []" by (rule names_ok_pname)
    with nd show "planned ?fs0 folder p = planned fs folder p" by (rule planned_with_log)
  qed
  then show ?thesis by (simp add: plan_def candidates_with_log [OF nd])
qed

text \<open>
  C4, as the claim states it, fails: the preview computes every destination on the
  untouched snapshot, the execution on the filesystem as the earlier moves have left it.
  With \<open>images/a.jpg\<close> in place, the preview sends both \<open>a.jpg\<close> and \<open>a (2).jpg\<close> to
  \<open>images/a (2).jpg\<close>; the execution sends the second one to \<open>images/a (2) (2).jpg\<close>.
\<close>

theorem preview_counterexample:
  "moves_of (fst (organize
      [([], Dir), ([''r''], Dir), ([''r'', ''a.jpg''], File ''1''),
       ([''r'', ''a (2).jpg''], File ''2''), ([''r'', ''images''], Dir),
       ([''r'', ''images'', ''a.jpg''], File ''0'')] [''r''] True False ''20250101_120000''))
   = [([''r'', ''a.jpg''], [''r'', ''images'', ''a (2).jpg'']),
      ([''r'', ''a (2).jpg''], [''r'', ''images'', ''a (2).jpg''])] \<and>
   moves_of (fst (organize
      [([], Dir), ([''r''], Dir), ([''r'', ''a.jpg''], File ''1''),
       ([''r'', ''a (2).jpg''], File ''2''), ([''r'', ''images''], Dir),
       ([''r'', ''images'', ''a.jpg''], File ''0'')] [''r''] False False ''20250101_120000''))
   = [([''r'', ''a.jpg''], [''r'', ''images'', ''a (2).jpg'']),
      ([''r'', ''a (2).jpg''], [''r'', ''images'', ''a (2) (2).jpg''])] \<and>
   moves_of (fst (organize
      [([], Dir), ([''r''], Dir), ([''r'', ''a.jpg''], File ''1''),
       ([''r'', ''a (2).jpg''], File ''2''), ([''r'', ''images''], Dir),
       ([''r'', ''images'', ''a.jpg''], File ''0'')] [''r''] True False ''20250101_120000''))
   \<noteq> moves_of (fst (organize
      [([], Dir), ([''r''], Dir), ([''r'', ''a.jpg''], File ''1''),
       ([''r'', ''a (2).jpg''], File ''2''), ([''r'', ''images''], Dir),
       ([''r'', ''images'', ''a.jpg''], File ''0'')] [''r''] False False ''20250101_120000''))"
  by code_simp

text \<open>
  C4 (amended): without recursion into subfolders, on every snapshot with proper names and
  for every folder, if the destinations that the dry run reports are pairwise distinct, then
  the pairs that a real run from the same snapshot executes are the first pairs of the dry
  run's report, in the same order, and all of them when the real run ends without an
  exception.
\<close>

theorem preview_agrees_when_distinct:
  assumes "names_ok fs"
    and "distinct (map snd (moves_of (fst (organize fs folder True False ts))))"
  shows "(\<exists>j. moves_of (fst (organize fs folder False False ts))
               = take j (moves_of (fst (organize fs folder True False ts)))) \<and>
         (fst (snd (organize fs folder False False ts)) = Done \<longrightarrow>
            moves_of (fst (organize fs folder False False ts))
              = moves_of (fst (organize fs folder True False ts)))"
proof (cases "is_dir fs folder")
  case False
  then have "moves_of (fst (organize fs folder False False ts)) = []"
    "fst (snd (organize fs folder False False ts)) \<noteq> Done"
    by (simp_all add: organize_def)
  then show ?thesis by simp
next
  case dir: True
  let ?lp = "join folder (log_name ts)"
  let ?P = "plan fs folder False (iterdir fs folder)"
  have dry: "moves_of (fst (organize fs folder True False ts)) = ?P"
    using dir by (simp add: organize_def organize_loop_dry Let_def moves_of_append moves_of_dry)
  show ?thesis
  proof (cases "is_dir fs ?lp")
    case True
    then have "organize fs folder False False ts = ([], Raised (IsADirectoryError ?lp), fs)"
      using dir by (simp add: organize_def open_w_def)
    then show ?thesis by simp
  next
    case False
    let ?fs0 = "with_log fs ?lp"
    let ?it = "iterdir ?fs0 folder"
    have op: "open_w fs ?lp = Inr ?fs0" using dir False by (rule open_w_log)
    have pl: "plan ?fs0 folder False ?it = ?P" using False assms(1) by (rule plan_with_log)
    obtain e fs1 lf1 n1 out1 where
      loop: "organize_loop folder False False ?it (?fs0, Some [], 0, []) = (e, (fs1, lf1, n1, out1))"
      by (metis prod.exhaust)
    have dir0: "is_dir ?fs0 folder" using dir False by (simp add: is_dir_with_log)
    have ents: "\<forall>p \<in> set ?it. map_of ?fs0 p = map_of ?fs0 p \<and> exists ?fs0 p \<and> p \<noteq> [] \<and>
                  parent p = folder \<and> pname p \<noteq> []"
    proof
      fix p assume p: "p \<in> set ?it"
      then have e: "exists ?fs0 p \<and> p \<noteq> [] \<and> parent p = folder" by (rule iterdir_entry)
      have "pname p \<noteq> []"
      proof (cases "p = ?lp")
        case True
        then show ?thesis by (simp add: log_path_facts(3) log_name_nonempty)
      next
        case ne: False
        from p have "p \<in> set (keys ?fs0)" by (simp add: iterdir_def)
        with ne keys_with_log [of fs ?lp] have "p \<in> set (keys fs)" by auto
        moreover from e have "p \<noteq> []" by simp
        ultimately show ?thesis using assms(1) by (intro names_ok_pname)
      qed
      with e show "map_of ?fs0 p = map_of ?fs0 p \<and> exists ?fs0 p \<and> p \<noteq> [] \<and>
                  parent p = folder \<and> pname p \<noteq> []" by simp
    qed
    have dit: "distinct ?it" by (simp add: iterdir_def keys_def)
    have dpl: "distinct (map snd (plan ?fs0 folder False ?it))" using assms(2) dry pl by simp
    have "\<exists>j. j \<le> length (plan ?fs0 folder False ?it) \<and>
             out1 = [] @ map (\<lambda>(src, dst). Moved src dst) (take j (plan ?fs0 folder False ?it)) \<and>
             (e = None \<longrightarrow> j = length (plan ?fs0 folder False ?it))"
      using loop dir0 _ ents dit dpl
      by (rule real_follows_plan [where D = "{}"]) simp_all
    then obtain j where j: "out1 = map (\<lambda>(src, dst). Moved src dst) (take j ?P)"
      "e = None \<longrightarrow> j = length ?P" using pl by auto
    have mo: "moves_of out1 = take j ?P" using j(1) by (simp add: moves_of_real)
    show ?thesis
    proof (cases e)
      case None
      with dir op loop have "fst (organize fs folder False False ts)
          = out1 @ (if lf1 \<noteq> None then [LogSaved ?lp] else []) @ [Processed n1]"
        by (simp add: organize_def Let_def)
      then have t: "moves_of (fst (organize fs folder False False ts))
                      = take j (moves_of (fst (organize fs folder True False ts)))"
        using mo dry by (simp add: moves_of_append)
      moreover from t None j(2) dry
      have "moves_of (fst (organize fs folder False False ts))
              = moves_of (fst (organize fs folder True False ts))" by simp
      ultimately show ?thesis by blast
    next
      case (Some err)
      with dir op loop have r: "fst (organize fs folder False False ts) = out1"
        "fst (snd (organize fs folder False False ts)) = Raised err"
        by (simp_all add: organize_def Let_def)
      with mo dry have "moves_of (fst (organize fs folder False False ts))
                      = take j (moves_of (fst (organize fs folder True False ts)))"
        "fst (snd (organize fs folder False False ts)) \<noteq> Done" by simp_all
      then show ?thesis by blast
    qed
  qed
qed

theorem preview_agrees_when_distinct_witness:
  "moves_of (fst (organize
      [([], Dir), ([''r''], Dir), ([''r'', ''a.jpg''], File ''A''), ([''r'', ''b.pdf''], File ''B''),
       ([''r'', ''c''], File ''C'')] [''r''] False False ''20250101_120000''))
   = [([''r'', ''a.jpg''], [''r'', ''images'', ''a.jpg'']),
      ([''r'', ''b.pdf''], [''r'', ''docs'', ''b.pdf'']),
      ([''r'', ''c''], [''r'', ''no_extension'', ''c''])]"
proof -
  let ?fs = "[([], Dir), ([''r''], Dir), ([''r'', ''a.jpg''], File ''A''),
              ([''r'', ''b.pdf''], File ''B''), ([''r'', ''c''], File ''C'')]"
  let ?ms = "[([''r'', ''a.jpg''], [''r'', ''images'', ''a.jpg'']),
              ([''r'', ''b.pdf''], [''r'', ''docs'', ''b.pdf'']),
              ([''r'', ''c''], [''r'', ''no_extension'', ''c''])]"
  have h1: "names_ok ?fs" by code_simp
  have d: "moves_of (fst (organize ?fs [''r''] True False ''20250101_120000'')) = ?ms"
    by code_simp
  have h2: "distinct (map snd (moves_of (fst (organize ?fs [''r''] True False ''20250101_120000''))))"
    unfolding d by simp
  have h3: "fst (snd (organize ?fs [''r''] False False ''20250101_120000'')) = Done"
    by code_simp
  from preview_agrees_when_distinct [OF h1 h2] h3 d show ?thesis by simp
qed

section \<open>Writing the log and reading it back\<close>

text \<open>
  A component that the log format carries unharmed: it is a proper name and holds neither
  the slash, nor a bar, nor a line break.
\<close>

definition comp_ok :: "string \<Rightarrow> bool" where
  "comp_ok c =
     (c \<noteq> [] \<and> c \<noteq> ''.'' \<and>
      (\<forall>x \<in> set c. x \<noteq> CHR ''/'' \<and> x \<noteq> CHR ''|'' \<and> x \<noteq> CHR 0x0A \<and> x \<noteq> CHR 0x0D))"

text \<open>The line that \<open>move_file\<close> writes for one move, without its line break.\<close>

definition log_line :: "path \<times> path \<Rightarrow> string" where
  "log_line m = render (fst m) @ ''||'' @ render (snd m)"

definition log_text :: "(path \<times> path) list \<Rightarrow> string" where
  "log_text ms = concat (map (\<lambda>m. log_line m @ [CHR 0x0A]) ms)"

lemma split_slash_acc:
  "CHR ''/'' \<notin> set c \<Longrightarrow> split_slash acc (c @ rest) =
     (case rest of [] \<Rightarrow> [rev acc @ c] | x # xs \<Rightarrow> split_slash (rev c @ acc) rest)"
  by (induction c arbitrary: acc) (auto split: list.splits)

lemma split_slash_render:
  "\<forall>c \<in> set p. CHR ''/'' \<notin> set c \<Longrightarrow>
     split_slash acc (concat (map (\<lambda>c. CHR ''/'' # c) p)) = rev acc # p"
proof (induction p arbitrary: acc)
  case Nil
  show ?case by simp
next
  case (Cons c p)
  have c: "CHR ''/'' \<notin> set c" using Cons.prems by simp
  have "split_slash [] (c @ concat (map (\<lambda>c. CHR ''/'' # c) p)) = c # p"
  proof (cases p)
    case Nil
    with split_slash_acc [OF c, of "[]" "[]"] show ?thesis by simp
  next
    case (Cons d q)
    let ?rest = "concat (map (\<lambda>c. CHR ''/'' # c) p)"
    have r: "?rest = CHR ''/'' # d @ concat (map (\<lambda>c. CHR ''/'' # c) q)" using Cons by simp
    have "split_slash [] (c @ ?rest) = split_slash (rev c) ?rest"
      using split_slash_acc [OF c, of "[]" ?rest] r by simp
    also have "\<dots> = rev (rev c) # p" using Cons.prems by (intro Cons.IH) simp
    finally show ?thesis by simp
  qed
  then show ?case by simp
qed

lemma path_of_render:
  assumes "p \<noteq> []" and "\<forall>c \<in> set p. comp_ok c"
  shows "path_of cwd (render p) = p"
proof -
  have ns: "\<forall>c \<in> set p. CHR ''/'' \<notin> set c" using assms(2) by (auto simp: comp_ok_def)
  have sp: "split_slash [] (render p) = [] # p"
    using assms(1) split_slash_render [OF ns, of "[]"] by (simp add: render_def)
  have f: "filter (\<lambda>x. x \<noteq> [] \<and> x \<noteq> ''.'') p = p"
    using assms(2) by (intro filter_True) (auto simp: comp_ok_def)
  have st: "startswith (render p) ''/''"
    using assms(1) by (cases p) (simp_all add: render_def startswith_def)
  show ?thesis using sp f st by (simp add: path_of_def)
qed

lemma render_chars:
  assumes "\<forall>c \<in> set p. comp_ok c"
  shows "CHR ''|'' \<notin> set (render p) \<and> CHR 0x0A \<notin> set (render p) \<and> CHR 0x0D \<notin> set (render p)"
  using assms by (auto simp: render_def comp_ok_def)

lemma split_bars_none: "CHR ''|'' \<notin> set b \<Longrightarrow> split_bars acc b = [rev acc @ b]"
  by (induction acc b rule: split_bars.induct) auto

lemma split_bars_two:
  "CHR ''|'' \<notin> set a \<Longrightarrow> CHR ''|'' \<notin> set b \<Longrightarrow>
     split_bars acc (a @ ''||'' @ b) = [rev acc @ a, b]"
proof (induction a arbitrary: acc)
  case Nil
  then show ?case by (simp add: split_bars_none)
next
  case (Cons x a)
  then have "split_bars (x # acc) (a @ ''||'' @ b) = [rev (x # acc) @ a, b]" by simp
  moreover have "split_bars acc ((x # a) @ ''||'' @ b) = split_bars (x # acc) (a @ ''||'' @ b)"
    using Cons.prems(1) by (cases "a @ ''||'' @ b") auto
  ultimately show ?case by simp
qed

lemma strip_id: "s \<noteq> [] \<Longrightarrow> \<not> isspace (hd s) \<Longrightarrow> \<not> isspace (last s) \<Longrightarrow> strip s = s"
proof -
  assume s: "s \<noteq> []" and h: "\<not> isspace (hd s)" and l: "\<not> isspace (last s)"
  have "dropWhile isspace s = s" using s h by (cases s) simp_all
  moreover have "dropWhile isspace (rev s) = rev s"
    using s l by (cases "rev s") (simp_all add: last_rev [symmetric] hd_rev)
  ultimately show ?thesis by (simp add: strip_def)
qed

text \<open>A record whose line is read back as it was written.\<close>

definition rec_ok :: "path \<times> path \<Rightarrow> bool" where
  "rec_ok m =
     (fst m \<noteq> [] \<and> snd m \<noteq> [] \<and> (\<forall>c \<in> set (fst m). comp_ok c) \<and>
      (\<forall>c \<in> set (snd m). comp_ok c) \<and> \<not> isspace (last (last (snd m))))"

lemma render_nonempty: "render p \<noteq> []"
  by (cases p) (simp_all add: render_def)

lemma hd_render: "hd (render p) = CHR ''/''"
  by (cases p) (simp_all add: render_def)

lemma last_render: "p \<noteq> [] \<Longrightarrow> last p \<noteq> [] \<Longrightarrow> last (render p) = last (last p)"
proof (induction p)
  case Nil
  then show ?case by simp
next
  case (Cons c p)
  show ?case
  proof (cases p)
    case Nil
    with Cons.prems show ?thesis by (simp add: render_def)
  next
    case (Cons d q)
    with Cons.prems Cons.IH have "last (render p) = last (last p)" by simp
    moreover have "render (c # p) = (CHR ''/'' # c) @ render p" using Cons by (simp add: render_def)
    ultimately show ?thesis using Cons render_nonempty [of p] by simp
  qed
qed

lemma slash_not_space: "\<not> isspace CHR ''/''"
  by (simp add: isspace_def)

lemma parse_line:
  assumes "rec_ok (p, d)"
  shows "split_bars [] (strip (log_line (p, d))) = [render p, render d]"
proof -
  have ld: "last d \<noteq> []" using assms by (auto simp: rec_ok_def comp_ok_def)
  have "last (log_line (p, d)) = last (render d)"
    using render_nonempty [of d] by (simp add: log_line_def)
  also have "\<dots> = last (last d)" using assms ld by (intro last_render) (simp_all add: rec_ok_def)
  finally have l: "\<not> isspace (last (log_line (p, d)))" using assms by (simp add: rec_ok_def)
  have "hd (log_line (p, d)) = CHR ''/''"
    using render_nonempty [of p] hd_render [of p] by (simp add: log_line_def)
  then have h: "\<not> isspace (hd (log_line (p, d)))" by (simp add: slash_not_space)
  have ne: "log_line (p, d) \<noteq> []" using render_nonempty [of p] by (simp add: log_line_def)
  have st: "strip (log_line (p, d)) = log_line (p, d)" using ne h l by (rule strip_id)
  have "CHR ''|'' \<notin> set (render p)" "CHR ''|'' \<notin> set (render d)"
    using assms render_chars [of p] render_chars [of d] by (simp_all add: rec_ok_def)
  then have "split_bars [] (render p @ ''||'' @ render d) = [rev [] @ render p, render d]"
    by (rule split_bars_two)
  with st show ?thesis by (simp add: log_line_def)
qed

lemma parse_log_lines:
  "\<forall>m \<in> set ms. rec_ok m \<Longrightarrow> parse_log cwd (map log_line ms) = Inr ms"
proof (induction ms)
  case Nil
  show ?case by simp
next
  case (Cons m ms)
  obtain p d where m: "m = (p, d)" by (cases m)
  have ok: "rec_ok (p, d)" using Cons.prems m by simp
  have "path_of cwd (render p) = p" "path_of cwd (render d) = d"
    using ok by (simp_all add: rec_ok_def path_of_render)
  with parse_line [OF ok] Cons.IH Cons.prems show ?case by (simp add: m)
qed

lemma universal_newlines_id: "CHR 0x0D \<notin> set s \<Longrightarrow> universal_newlines s = s"
  by (induction s rule: universal_newlines.induct) auto

lemma lines_of_line:
  "CHR 0x0A \<notin> set l \<Longrightarrow> lines_of acc (l @ CHR 0x0A # rest) = (rev acc @ l) # lines_of [] rest"
  by (induction l arbitrary: acc) auto

lemma lines_of_concat:
  "\<forall>l \<in> set ls. CHR 0x0A \<notin> set l \<Longrightarrow>
     lines_of [] (concat (map (\<lambda>l. l @ [CHR 0x0A]) ls)) = ls"
proof (induction ls)
  case Nil
  show ?case by simp
next
  case (Cons l ls)
  then have "lines_of [] (l @ CHR 0x0A # concat (map (\<lambda>l. l @ [CHR 0x0A]) ls))
               = (rev [] @ l) # lines_of [] (concat (map (\<lambda>l. l @ [CHR 0x0A]) ls))"
    by (intro lines_of_line) simp
  with Cons show ?case by simp
qed

lemma log_line_chars:
  assumes "rec_ok m"
  shows "CHR 0x0A \<notin> set (log_line m) \<and> CHR 0x0D \<notin> set (log_line m)"
  using assms render_chars [of "fst m"] render_chars [of "snd m"]
  by (simp add: rec_ok_def log_line_def)

lemma read_log:
  assumes "\<forall>m \<in> set ms. rec_ok m"
  shows "parse_log cwd (lines_of [] (universal_newlines (log_text ms))) = Inr ms"
proof -
  have "CHR 0x0D \<notin> set (log_text ms)"
    using assms log_line_chars by (auto simp: log_text_def)
  then have "universal_newlines (log_text ms) = log_text ms" by (rule universal_newlines_id)
  moreover have "lines_of [] (log_text ms) = map log_line ms"
  proof -
    have "\<forall>l \<in> set (map log_line ms). CHR 0x0A \<notin> set l" using assms log_line_chars by auto
    from lines_of_concat [OF this] show ?thesis by (simp add: log_text_def comp_def)
  qed
  ultimately show ?thesis using assms by (simp add: parse_log_lines)
qed

section \<open>Organize, then undo\<close>

text \<open>Undoing a list of moves whose destinations are files and whose sources are free.\<close>

lemma undo_restores:
  assumes "distinct (map fst M)" and "distinct (map snd M)"
    and "\<forall>m \<in> set M. \<forall>m' \<in> set M. fst m \<noteq> snd m'"
    and "\<forall>m \<in> set M. (\<exists>c. map_of cur (snd m) = Some (File c)) \<and> map_of cur (fst m) = None \<and>
                       fst m \<noteq> [] \<and> is_dir cur (parent (fst m))"
    and "\<forall>m \<in> set M. \<forall>m' \<in> set M. parent (fst m) \<noteq> fst m' \<and> parent (fst m) \<noteq> snd m'"
  shows "\<exists>cur'. undo_loop False (rev M) (cur, out)
                  = (None, (cur', out @ map (\<lambda>m. Undid (snd m) (fst m)) (rev M))) \<and>
               (\<forall>m \<in> set M. map_of cur' (fst m) = map_of cur (snd m) \<and> map_of cur' (snd m) = None) \<and>
               (\<forall>q. q \<notin> fst ` set M \<union> snd ` set M \<longrightarrow> map_of cur' q = map_of cur q)"
  using assms
proof (induction M arbitrary: cur out rule: rev_induct)
  case Nil
  show ?case by simp
next
  case (snoc m M)
  obtain p d where m: "m = (p, d)" by (cases m)
  from snoc.prems(4) m obtain c where c: "map_of cur d = Some (File c)"
    and pfree: "map_of cur p = None" and pne: "p \<noteq> []" and pdir: "is_dir cur (parent p)"
    by auto
  have pd: "p \<noteq> d" using c pfree by auto
  let ?cur1 = "filter (\<lambda>(q, n). q \<noteq> d \<and> q \<noteq> p) cur @ [(p, File c)]"
  have exd: "exists cur d" using c by (simp add: exists_def)
  have nexp: "\<not> exists cur p" using pfree by (simp add: exists_def)
  have expar: "exists cur (parent p)" using pdir by (rule is_dir_exists)
  have mv: "shutil_move cur d p = Inr ?cur1"
    using shutil_move_file [OF c nexp] pne pdir expar by simp
  have step: "undo_step False (p, d) (cur, out) = (None, (?cur1, out @ [Undid d p]))"
    using exd nexp pdir mv by (simp add: ensure_dir_is_dir Let_def)
  have m1: "map_of ?cur1 q = (if q = p then Some (File c) else if q = d then None else map_of cur q)"
    for q using pfree by (auto simp: map_of_snoc map_of_filter_keys)
  have notin: "p \<notin> fst ` set M" "d \<notin> snd ` set M" "p \<notin> snd ` set M" "d \<notin> fst ` set M"
    using snoc.prems(1,2,3) m by (auto simp: image_iff)
  have h1: "distinct (map fst M)" and h2: "distinct (map snd M)"
    using snoc.prems(1,2) by simp_all
  have h3: "\<forall>m \<in> set M. \<forall>m' \<in> set M. fst m \<noteq> snd m'" using snoc.prems(3) by simp
  have h4: "\<forall>m \<in> set M. (\<exists>c. map_of ?cur1 (snd m) = Some (File c)) \<and>
               map_of ?cur1 (fst m) = None \<and> fst m \<noteq> [] \<and> is_dir ?cur1 (parent (fst m))"
  proof
    fix m' assume in': "m' \<in> set M"
    then have a: "snd m' \<noteq> d" "snd m' \<noteq> p" "fst m' \<noteq> p" "fst m' \<noteq> d"
      using notin by (auto simp: image_iff)
    have b: "parent (fst m') \<noteq> p" "parent (fst m') \<noteq> d"
      using snoc.prems(5) in' m by auto
    from snoc.prems(4) in' have "(\<exists>c. map_of cur (snd m') = Some (File c)) \<and>
        map_of cur (fst m') = None \<and> fst m' \<noteq> [] \<and> is_dir cur (parent (fst m'))" by simp
    with a b show "(\<exists>c. map_of ?cur1 (snd m') = Some (File c)) \<and>
               map_of ?cur1 (fst m') = None \<and> fst m' \<noteq> [] \<and> is_dir ?cur1 (parent (fst m'))"
      by (simp add: m1 is_dir_def)
  qed
  have h5: "\<forall>m \<in> set M. \<forall>m' \<in> set M. parent (fst m) \<noteq> fst m' \<and> parent (fst m) \<noteq> snd m'"
    using snoc.prems(5) by simp
  from snoc.IH [OF h1 h2 h3 h4 h5, of "out @ [Undid d p]"]
  obtain cur' where loop: "undo_loop False (rev M) (?cur1, out @ [Undid d p])
        = (None, (cur', (out @ [Undid d p]) @ map (\<lambda>m. Undid (snd m) (fst m)) (rev M)))"
    and r1: "\<forall>m \<in> set M. map_of cur' (fst m) = map_of ?cur1 (snd m) \<and> map_of cur' (snd m) = None"
    and r2: "\<forall>q. q \<notin> fst ` set M \<union> snd ` set M \<longrightarrow> map_of cur' q = map_of ?cur1 q"
    by blast
  have l: "undo_loop False (rev (M @ [m])) (cur, out)
             = (None, (cur', out @ map (\<lambda>m. Undid (snd m) (fst m)) (rev (M @ [m]))))"
    using step loop by (simp add: m)
  have a: "\<forall>m' \<in> set (M @ [m]). map_of cur' (fst m') = map_of cur (snd m') \<and>
             map_of cur' (snd m') = None"
  proof
    fix m' assume "m' \<in> set (M @ [m])"
    then consider "m' \<in> set M" | "m' = (p, d)" using m by auto
    then show "map_of cur' (fst m') = map_of cur (snd m') \<and> map_of cur' (snd m') = None"
    proof cases
      case 1
      then have "snd m' \<noteq> d" "snd m' \<noteq> p" using notin by (auto simp: image_iff)
      with r1 1 show ?thesis by (simp add: m1)
    next
      case 2
      with r2 notin c pd show ?thesis by (simp add: m1)
    qed
  qed
  have b: "\<forall>q. q \<notin> fst ` set (M @ [m]) \<union> snd ` set (M @ [m]) \<longrightarrow> map_of cur' q = map_of cur q"
    using r2 by (simp add: m m1)
  from l a b show ?case by blast
qed

text \<open>
  Where a file goes when its name is free in its bucket, and the folder of that bucket.
\<close>

definition bucket_dir :: "path \<Rightarrow> path \<Rightarrow> path" where
  "bucket_dir root p = root @ [pick_bucket (suffix (pname p))]"

definition flat_dst :: "path \<Rightarrow> path \<Rightarrow> path" where
  "flat_dst root p = root @ [pick_bucket (suffix (pname p)), pname p]"

lemma safe_destination_first:
  "\<not> exists fs (join d f) \<Longrightarrow> safe_destination fs d f = join d f"
  using sd_while_spec [of fs "join d f" d "stem f" "suffix f" 2]
  by (auto simp: safe_destination_def)

lemma organize_step_flat:
  assumes dir: "is_dir cur root"
    and isfile: "map_of cur p = Some (File c)"
    and p: "p \<noteq> []" "parent p = root" "pname p \<noteq> []" "\<not> startswith (pname p) LOG_PREFIX"
    and bd: "map_of cur (bucket_dir root p) = None \<or> map_of cur (bucket_dir root p) = Some Dir"
    and free: "\<not> exists cur (flat_dst root p)"
  shows "\<exists>cur1. organize_step root False False p (cur, Some t, n, out)
           = (None, (cur1, Some (t @ log_line (p, flat_dst root p) @ [CHR 0x0A]), n + 1,
                     out @ [Moved p (flat_dst root p)])) \<and>
         (\<forall>q. map_of cur1 q =
                (if q = flat_dst root p then Some (File c)
                 else if q = p then None
                 else if q = bucket_dir root p then Some Dir
                 else map_of cur q))"
proof -
  let ?b = "pick_bucket (suffix (pname p))"
  let ?bd = "bucket_dir root p"
  let ?dst = "flat_dst root p"
  have jn: "join (join root ?b) (pname p) = ?dst"
    using pick_bucket_nonempty [of "suffix (pname p)"] p(3) by (simp add: join_def flat_dst_def)
  have sd: "safe_destination cur (join root ?b) (pname p) = ?dst"
    using safe_destination_first [of cur "join root ?b" "pname p"] free by (simp add: jn)
  have pd: "parent ?dst = ?bd" by (simp add: flat_dst_def bucket_dir_def parent_def butlast_append)
  have pbd: "parent ?bd = root" "?bd \<noteq> []" by (simp_all add: bucket_dir_def parent_def)
  have nd: "\<not> is_dir cur p" using isfile by (simp add: is_dir_def)
  obtain cur_a where ed: "ensure_dir cur ?bd = (None, cur_a)"
    and ma: "\<forall>q. map_of cur_a q = (if q = ?bd then Some Dir else map_of cur q)"
  proof (cases "map_of cur ?bd")
    case None
    then have "ensure_dir cur ?bd = (None, cur @ [(?bd, Dir)])"
      using dir pbd by (intro ensure_dir_new) (simp_all add: exists_def)
    moreover have "\<forall>q. map_of (cur @ [(?bd, Dir)]) q = (if q = ?bd then Some Dir else map_of cur q)"
      using None by (auto simp: map_of_snoc)
    ultimately show ?thesis using that by blast
  next
    case (Some x)
    with bd have d: "map_of cur ?bd = Some Dir" by simp
    then have "ensure_dir cur ?bd = (None, cur)" by (intro ensure_dir_is_dir) (simp add: is_dir_def)
    moreover have "\<forall>q. map_of cur q = (if q = ?bd then Some Dir else map_of cur q)"
      using d by simp
    ultimately show ?thesis using that by blast
  qed
  have pne: "p \<noteq> ?bd" using isfile bd by auto
  have dne: "?dst \<noteq> ?bd" "?dst \<noteq> []" by (simp_all add: flat_dst_def bucket_dir_def)
  have fa: "map_of cur_a p = Some (File c)" using ma pne isfile by simp
  have free_a: "\<not> exists cur_a ?dst" using ma dne free by (simp add: exists_def)
  have par_a: "is_dir cur_a (parent ?dst)" using ma by (simp add: pd is_dir_def)
  let ?cur1 = "filter (\<lambda>(q, n). q \<noteq> p \<and> q \<noteq> ?dst) cur_a @ [(?dst, File c)]"
  have mv: "shutil_move cur_a p ?dst = Inr ?cur1"
    using shutil_move_file [OF fa free_a] dne par_a is_dir_exists [OF par_a] by simp
  have "move_file cur p ?dst False (Some t)
          = (None, ?cur1, Some (t @ render p @ ''||'' @ render ?dst @ [CHR 0x0A]), [Moved p ?dst])"
    using ed mv by (simp add: move_file_def pd)
  then have st: "organize_step root False False p (cur, Some t, n, out)
           = (None, (?cur1, Some (t @ log_line (p, ?dst) @ [CHR 0x0A]), n + 1, out @ [Moved p ?dst]))"
    using nd p(2,4) sd by (simp add: Let_def log_line_def)
  have pdst: "p \<noteq> ?dst" using isfile free by (auto simp: exists_def)
  have m1: "\<forall>q. map_of ?cur1 q =
                (if q = ?dst then Some (File c)
                 else if q = p then None
                 else if q = ?bd then Some Dir
                 else map_of cur q)"
    using ma by (auto simp: map_of_snoc map_of_filter_keys)
  from st m1 show ?thesis by blast
qed

text \<open>
  A real run over a listing of regular files of the folder, when no file has the name of a
  bucket folder that is needed and no file of the name of a listed one lies in a bucket
  folder: every file that is not a log goes to its bucket under its own name.
\<close>

definition not_log :: "path \<Rightarrow> bool" where
  "not_log p = (\<not> startswith (pname p) LOG_PREFIX)"

lemma log_text_Cons: "log_text (m # ms) = log_line m @ [CHR 0x0A] @ log_text ms"
  by (simp add: log_text_def)

lemma organize_flat:
  assumes "is_dir cur root" and "distinct ps"
    and "\<forall>p \<in> set ps. (\<exists>c. map_of cur p = Some (File c)) \<and> p \<noteq> [] \<and> parent p = root \<and>
                        pname p \<noteq> []"
    and "\<forall>p \<in> set ps. map_of cur (bucket_dir root p) = None \<or>
                        map_of cur (bucket_dir root p) = Some Dir"
    and "\<forall>b x. exists cur (root @ [b, x]) \<longrightarrow> root @ [x] \<notin> set ps"
  shows "\<exists>cur'. organize_loop root False False ps (cur, Some t, n, out)
           = (None, (cur', Some (t @ log_text (map (\<lambda>p. (p, flat_dst root p)) (filter not_log ps))),
                     n + length (filter not_log ps),
                     out @ map (\<lambda>p. Moved p (flat_dst root p)) (filter not_log ps))) \<and>
         (\<forall>p \<in> set (filter not_log ps).
             map_of cur' (flat_dst root p) = map_of cur p \<and> map_of cur' p = None \<and>
             map_of cur' (bucket_dir root p) = Some Dir) \<and>
         (\<forall>q. q \<notin> set (filter not_log ps) \<union> flat_dst root ` set (filter not_log ps)
                    \<union> bucket_dir root ` set (filter not_log ps) \<longrightarrow>
              map_of cur' q = map_of cur q)"
  using assms
proof (induction ps arbitrary: cur t n out)
  case Nil
  show ?case by (simp add: log_text_def)
next
  case (Cons p ps)
  note dir = Cons.prems(1) and dist = Cons.prems(2) and files = Cons.prems(3)
    and bds = Cons.prems(4) and deep = Cons.prems(5)
  from files obtain c where c: "map_of cur p = Some (File c)" and p: "p \<noteq> []" "parent p = root"
    "pname p \<noteq> []" by auto
  have pform: "p = root @ [pname p]" using p(1,2) by (rule child_form)
  have tl_files: "\<forall>p \<in> set ps. (\<exists>c. map_of cur p = Some (File c)) \<and> p \<noteq> [] \<and> parent p = root \<and>
                        pname p \<noteq> []" using files by simp
  have tl_form: "q = root @ [pname q]" if "q \<in> set ps" for q
    using tl_files that by (intro child_form) auto
  show ?case
  proof (cases "not_log p")
    case False
    then have "organize_step root False False p (cur, Some t, n, out) = (None, (cur, Some t, n, out))"
      by (simp add: not_log_def)
    moreover have "distinct ps" using dist by simp
    moreover have "\<forall>p \<in> set ps. map_of cur (bucket_dir root p) = None \<or>
                        map_of cur (bucket_dir root p) = Some Dir" using bds by simp
    moreover have "\<forall>b x. exists cur (root @ [b, x]) \<longrightarrow> root @ [x] \<notin> set ps" using deep by simp
    ultimately show ?thesis
      using Cons.IH [OF dir _ tl_files, of t n out] False by simp
  next
    case True
    let ?dst = "flat_dst root p"
    let ?bd = "bucket_dir root p"
    have bd: "map_of cur ?bd = None \<or> map_of cur ?bd = Some Dir" using bds by simp
    have free: "\<not> exists cur ?dst"
    proof
      assume "exists cur ?dst"
      with deep have "root @ [pname p] \<notin> set (p # ps)" by (simp add: flat_dst_def)
      with pform show False by simp
    qed
    from organize_step_flat [OF dir c p True [unfolded not_log_def] bd free, of t n out]
    obtain cur1 where st: "organize_step root False False p (cur, Some t, n, out)
           = (None, (cur1, Some (t @ log_line (p, ?dst) @ [CHR 0x0A]), n + 1, out @ [Moved p ?dst]))"
      and m1: "\<forall>q. map_of cur1 q =
                (if q = ?dst then Some (File c)
                 else if q = p then None
                 else if q = ?bd then Some Dir
                 else map_of cur q)" by blast
    have len: "length ?dst = length root + 2" "length ?bd = length root + 1"
      "length p = length root + 1"
      using pform by (simp_all add: flat_dst_def bucket_dir_def) (metis length_append_singleton)
    have rne: "root \<noteq> ?dst" "root \<noteq> ?bd" "root \<noteq> p" using len by auto
    have dir1: "is_dir cur1 root" using dir m1 rne by (simp add: is_dir_def)
    have dist1: "distinct ps" and pnot: "p \<notin> set ps" using dist by simp_all
    have keep: "map_of cur1 q = map_of cur q" if "q \<in> set ps" for q
    proof -
      from tl_files that obtain c' where c': "map_of cur q = Some (File c')" by auto
      have "length q = length root + 1" using tl_form [OF that] by (metis length_append_singleton Suc_eq_plus1)
      then have "q \<noteq> ?dst" using len by auto
      moreover have "q \<noteq> p" using that pnot by auto
      moreover have "q \<noteq> ?bd" using c' bd by auto
      ultimately show ?thesis using m1 by simp
    qed
    have files1: "\<forall>p \<in> set ps. (\<exists>c. map_of cur1 p = Some (File c)) \<and> p \<noteq> [] \<and>
                    parent p = root \<and> pname p \<noteq> []"
      using tl_files keep by simp
    have bds1: "\<forall>q \<in> set ps. map_of cur1 (bucket_dir root q) = None \<or>
                        map_of cur1 (bucket_dir root q) = Some Dir"
    proof
      fix q assume q: "q \<in> set ps"
      with bds have b: "map_of cur (bucket_dir root q) = None \<or>
                        map_of cur (bucket_dir root q) = Some Dir" by simp
      have "length (bucket_dir root q) = length root + 1" by (simp add: bucket_dir_def)
      then have "bucket_dir root q \<noteq> ?dst" using len by auto
      with b m1 show "map_of cur1 (bucket_dir root q) = None \<or>
                        map_of cur1 (bucket_dir root q) = Some Dir" by auto
    qed
    have deep1: "\<forall>b x. exists cur1 (root @ [b, x]) \<longrightarrow> root @ [x] \<notin> set ps"
    proof (intro allI impI)
      fix b x assume ex: "exists cur1 (root @ [b, x])"
      have "root @ [b, x] \<noteq> p" "root @ [b, x] \<noteq> ?bd"
        using len by (auto dest!: arg_cong [where f = length])
      with ex m1 have "root @ [b, x] = ?dst \<or> exists cur (root @ [b, x])"
        by (auto simp: exists_def split: if_splits)
      then show "root @ [x] \<notin> set ps"
      proof
        assume "root @ [b, x] = ?dst"
        then have "x = pname p" by (simp add: flat_dst_def)
        with pform pnot show ?thesis by simp
      next
        assume "exists cur (root @ [b, x])"
        with deep show ?thesis by simp
      qed
    qed
    from Cons.IH [OF dir1 dist1 files1 bds1 deep1,
        of "t @ log_line (p, ?dst) @ [CHR 0x0A]" "n + 1" "out @ [Moved p ?dst]"]
    obtain cur' where loop: "organize_loop root False False ps
          (cur1, Some (t @ log_line (p, ?dst) @ [CHR 0x0A]), n + 1, out @ [Moved p ?dst])
           = (None, (cur', Some ((t @ log_line (p, ?dst) @ [CHR 0x0A])
                            @ log_text (map (\<lambda>p. (p, flat_dst root p)) (filter not_log ps))),
                     n + 1 + length (filter not_log ps),
                     (out @ [Moved p ?dst]) @ map (\<lambda>p. Moved p (flat_dst root p)) (filter not_log ps)))"
      and r1: "\<forall>q \<in> set (filter not_log ps).
             map_of cur' (flat_dst root q) = map_of cur1 q \<and> map_of cur' q = None \<and>
             map_of cur' (bucket_dir root q) = Some Dir"
      and r2: "\<forall>q. q \<notin> set (filter not_log ps) \<union> flat_dst root ` set (filter not_log ps)
                    \<union> bucket_dir root ` set (filter not_log ps) \<longrightarrow>
              map_of cur' q = map_of cur1 q" by blast
    have A: "organize_loop root False False (p # ps) (cur, Some t, n, out)
           = (None, (cur', Some (t @ log_text (map (\<lambda>p. (p, flat_dst root p)) (filter not_log (p # ps)))),
                     n + length (filter not_log (p # ps)),
                     out @ map (\<lambda>p. Moved p (flat_dst root p)) (filter not_log (p # ps))))"
      using st loop True by (simp add: log_text_Cons)
    have dst_new: "?dst \<notin> set (filter not_log ps) \<union> flat_dst root ` set (filter not_log ps)
                    \<union> bucket_dir root ` set (filter not_log ps)"
    proof -
      have "?dst \<noteq> q" if "q \<in> set ps" for q
        using tl_form [OF that] len by (metis length_append_singleton Suc_eq_plus1 add_2_eq_Suc' n_not_Suc_n)
      moreover have "?dst \<noteq> flat_dst root q" if "q \<in> set ps" for q
      proof
        assume "?dst = flat_dst root q"
        then have "pname p = pname q" by (simp add: flat_dst_def)
        with pform tl_form [OF that] have "p = q" by simp
        with that pnot show False by simp
      qed
      moreover have "?dst \<noteq> bucket_dir root q" for q by (simp add: flat_dst_def bucket_dir_def)
      ultimately show ?thesis by auto
    qed
    have p_new: "p \<notin> set (filter not_log ps) \<union> flat_dst root ` set (filter not_log ps)
                    \<union> bucket_dir root ` set (filter not_log ps)"
    proof -
      have "p \<noteq> flat_dst root q" for q
        using len by (metis flat_dst_def length_append_singleton length_append list.size(3,4)
            add_2_eq_Suc' Suc_eq_plus1 n_not_Suc_n add.right_neutral)
      moreover have "p \<noteq> bucket_dir root q" if "q \<in> set ps" for q
        using bds that c by auto
      ultimately show ?thesis using pnot by auto
    qed
    have B: "\<forall>q \<in> set (filter not_log (p # ps)).
             map_of cur' (flat_dst root q) = map_of cur q \<and> map_of cur' q = None \<and>
             map_of cur' (bucket_dir root q) = Some Dir"
    proof
      fix q assume "q \<in> set (filter not_log (p # ps))"
      then consider "q = p" | "q \<in> set (filter not_log ps)" using True by auto
      then show "map_of cur' (flat_dst root q) = map_of cur q \<and> map_of cur' q = None \<and>
             map_of cur' (bucket_dir root q) = Some Dir"
      proof cases
        case 1
        have "map_of cur' ?dst = map_of cur1 ?dst" using r2 dst_new by blast
        moreover have "map_of cur' p = map_of cur1 p" using r2 p_new by blast
        moreover have "map_of cur' ?bd = Some Dir"
        proof (cases "?bd \<in> bucket_dir root ` set (filter not_log ps)")
          case True
          with r1 show ?thesis by auto
        next
          case False
          have "?bd \<noteq> q'" if "q' \<in> set ps" for q'
            using tl_files that bd by auto
          moreover have "?bd \<noteq> flat_dst root q'" for q' by (simp add: flat_dst_def bucket_dir_def)
          ultimately have "?bd \<notin> set (filter not_log ps) \<union> flat_dst root ` set (filter not_log ps)
                    \<union> bucket_dir root ` set (filter not_log ps)" using False by auto
          with r2 have "map_of cur' ?bd = map_of cur1 ?bd" by blast
          moreover have "?bd \<noteq> ?dst" "?bd \<noteq> p" using len c bd by auto
          ultimately show ?thesis using m1 by simp
        qed
        moreover have "p \<noteq> ?dst" using len by auto
        ultimately show ?thesis using 1 m1 c by simp
      next
        case 2
        then have "q \<in> set ps" by simp
        with r1 2 keep show ?thesis by simp
      qed
    qed
    have C: "\<forall>q. q \<notin> set (filter not_log (p # ps)) \<union> flat_dst root ` set (filter not_log (p # ps))
                    \<union> bucket_dir root ` set (filter not_log (p # ps)) \<longrightarrow>
              map_of cur' q = map_of cur q"
    proof (intro allI impI)
      fix q assume q: "q \<notin> set (filter not_log (p # ps)) \<union> flat_dst root ` set (filter not_log (p # ps))
                    \<union> bucket_dir root ` set (filter not_log (p # ps))"
      with True have "q \<noteq> p" "q \<noteq> ?dst" "q \<noteq> ?bd" by auto
      moreover from q True have "q \<notin> set (filter not_log ps) \<union> flat_dst root ` set (filter not_log ps)
                    \<union> bucket_dir root ` set (filter not_log ps)" by auto
      ultimately show "map_of cur' q = map_of cur q" using r2 m1 by simp
    qed
    from A B C show ?thesis by blast
  qed
qed

end
